theory Spec2Isabelle
  imports Main "HOL-Library.Word"
begin

unbundle bit_operations_syntax

section \<open>The controller data structure\<close>

text \<open>
  \<^verbatim>\<open>dataForController_t\<close> (arduniocontroller.h, lines 43-71) is a struct of bit-fields
  whose declared type is \<^verbatim>\<open>uint8_t\<close>: seventeen one-bit button flags, a seven-bit field
  called \<^verbatim>\<open>padding\<close>, and four eight-bit stick values. Every field is a word of
  its declared width, in the order of declaration.
\<close>

type_synonym uint8_t = "8 word"

record dataForController_t =
  triangleOn :: "1 word"
  circleOn :: "1 word"
  squareOn :: "1 word"
  crossOn :: "1 word"
  l1On :: "1 word"
  l2On :: "1 word"
  l3On :: "1 word"
  r1On :: "1 word"
  r2On :: "1 word"
  r3On :: "1 word"
  selectOn :: "1 word"
  startOn :: "1 word"
  homeOn :: "1 word"
  dpadLeftOn :: "1 word"
  dpadUpOn :: "1 word"
  dpadRightOn :: "1 word"
  dpadDownOn :: "1 word"
  padding :: "7 word"
  leftStickX :: uint8_t
  leftStickY :: uint8_t
  rightStickX :: uint8_t
  rightStickY :: uint8_t

subsection \<open>The bytes of the structure\<close>

text \<open>
  The interrupt handler reads the structure through \<^verbatim>\<open>(uint8_t*)&controllerDataBuffer\<close>,
  so the bytes of the object are what goes over the wire. The target is the AVR of an
  Arduino (\<^verbatim>\<open>util/atomic.h\<close>, \<^verbatim>\<open>Arduino.h\<close>); avr-gcc allocates bit-fields in the order
  of declaration, starting at the least significant bit of the first byte, and the
  declared widths fill whole bytes exactly: 8 + 8 + (1 + 7) + 8 + 8 + 8 + 8 bits.
  \<open>bitfield w k\<close> places the field \<open>w\<close> at bit \<open>k\<close> of its byte.
\<close>

definition bitfield :: "'a::len word \<Rightarrow> nat \<Rightarrow> uint8_t" where
  "bitfield w k = push_bit k (ucast w)"

definition byte0 :: "dataForController_t \<Rightarrow> uint8_t" where
  "byte0 d = bitfield (triangleOn d) 0 OR bitfield (circleOn d) 1
          OR bitfield (squareOn d) 2 OR bitfield (crossOn d) 3
          OR bitfield (l1On d) 4 OR bitfield (l2On d) 5
          OR bitfield (l3On d) 6 OR bitfield (r1On d) 7"

definition byte1 :: "dataForController_t \<Rightarrow> uint8_t" where
  "byte1 d = bitfield (r2On d) 0 OR bitfield (r3On d) 1
          OR bitfield (selectOn d) 2 OR bitfield (startOn d) 3
          OR bitfield (homeOn d) 4 OR bitfield (dpadLeftOn d) 5
          OR bitfield (dpadUpOn d) 6 OR bitfield (dpadRightOn d) 7"

definition byte2 :: "dataForController_t \<Rightarrow> uint8_t" where
  "byte2 d = bitfield (dpadDownOn d) 0 OR bitfield (padding d) 1"

definition serialize :: "dataForController_t \<Rightarrow> uint8_t list" where
  "serialize d = [byte0 d, byte1 d, byte2 d,
                  leftStickX d, leftStickY d, rightStickX d, rightStickY d]"

text \<open>\<^verbatim>\<open>sizeof(dataForController_t)\<close>: the number of bytes of the object.\<close>

definition sizeof_dataForController_t :: nat where
  "sizeof_dataForController_t = 7"

subsection \<open>The blank value\<close>

text \<open>
  \<^verbatim>\<open>getBlankDataForController\<close> (lines 177-205) declares a local structure without an
  initialiser, assigns 0 to the seventeen button fields and 128 to the four stick
  fields, and returns it. It never assigns \<^verbatim>\<open>padding\<close>, so that field keeps whatever the
  uninitialised local held: the argument \<open>uninit\<close> is that content. The assignments are
  in the order of the source.
\<close>

definition getBlankDataForController :: "dataForController_t \<Rightarrow> dataForController_t" where
  "getBlankDataForController uninit =
     uninit\<lparr>triangleOn := 0, circleOn := 0, squareOn := 0, crossOn := 0,
            l1On := 0, l2On := 0, l3On := 0, r1On := 0, r2On := 0, r3On := 0,
            dpadLeftOn := 0, dpadUpOn := 0, dpadRightOn := 0, dpadDownOn := 0,
            selectOn := 0, startOn := 0, homeOn := 0,
            leftStickX := 128, leftStickY := 128,
            rightStickX := 128, rightStickY := 128\<rparr>"

section \<open>The global state and the operations on it\<close>

text \<open>
  The globals of the file (lines 102, 118 and 121) and the parts of the machine that
  the functions touch. \<^verbatim>\<open>int\<close> is 16 bits wide on the AVR; \<open>+\<close> on a word wraps
  around, which is what avr-gcc emits where C leaves signed overflow undefined.

  \<^item> \<open>Serial_rx\<close> is the receive buffer of \<^verbatim>\<open>Serial\<close>, oldest byte first:
    \<^verbatim>\<open>Serial.available() > 0\<close> is \<open>Serial_rx \<noteq> []\<close>, \<^verbatim>\<open>Serial.read()\<close> takes the head.
  \<^item> \<open>Serial_tx\<close> is every byte handed to \<^verbatim>\<open>Serial.write\<close> so far, oldest first.
  \<^item> \<open>SREG_I\<close> is the global interrupt enable flag.

  An index past the end of the structure reads the RAM behind it, at address
  \<^verbatim>\<open>(uint8_t*)&controllerDataBuffer + sizeof(dataForController_t) + k\<close>. The file does not
  fix what the linker places there. It can be another variable of the program, such as
  \<^verbatim>\<open>serialCheckCounter\<close> or the buffers and indices of \<^verbatim>\<open>Serial\<close>, which the interrupt
  handler itself writes before it reads the cell. So the content of such a cell is not
  a fixed byte: \<open>ram_beyond st v k\<close> is what cell \<open>k\<close> holds when the variables of the
  program have the values \<open>v\<close>, and a read applies it to the values at the moment of
  the read. While the handler runs, interrupts are disabled, so a cell changes only by
  the handler's own writes, which are writes to these variables. The map itself (where
  the linker put which variable, and what the cells that hold none of them contain) is
  arbitrary and a component of the state.
\<close>

type_synonym int16_t = "16 word"

record unojoy_vars =
  controllerDataBuffer :: dataForController_t
  serialCheckInterval :: int16_t
  serialCheckCounter :: int16_t
  Serial_rx :: "uint8_t list"
  Serial_tx :: "uint8_t list"
  Serial_baud :: nat
  OCR0A :: uint8_t
  TIMSK0 :: uint8_t
  pin13_output :: bool
  SREG_I :: bool

record unojoy = unojoy_vars +
  ram_beyond :: "unojoy_vars \<Rightarrow> nat \<Rightarrow> uint8_t"

text \<open>
  \<^verbatim>\<open>setControllerData\<close> (lines 109-115): the structure assignment inside
  \<^verbatim>\<open>ATOMIC_BLOCK(ATOMIC_FORCEON)\<close>, which disables interrupts, runs the body and enables
  interrupts on exit whatever the flag was before.
\<close>

definition setControllerData :: "dataForController_t \<Rightarrow> unojoy \<Rightarrow> unojoy" where
  "setControllerData controllerData st =
     st\<lparr>controllerDataBuffer := controllerData, SREG_I := True\<rparr>"

text \<open>\<^verbatim>\<open>OCIE0A\<close> is bit 1 of \<^verbatim>\<open>TIMSK0\<close> (avr/io.h for the ATmega328P).\<close>

definition OCIE0A :: nat where
  "OCIE0A = 1"

text \<open>
  \<^verbatim>\<open>setupUnoJoy(void)\<close> (lines 125-142) and \<^verbatim>\<open>setupUnoJoy(int)\<close> (lines 147-150).
  \<open>uninit\<close> is the uninitialised local of \<^verbatim>\<open>getBlankDataForController\<close>.
\<close>

definition setupUnoJoy :: "dataForController_t \<Rightarrow> unojoy \<Rightarrow> unojoy" where
  "setupUnoJoy uninit st =
     st\<lparr>controllerDataBuffer := getBlankDataForController uninit,
        Serial_baud := 38400,
        OCR0A := 128,
        TIMSK0 := TIMSK0 st OR push_bit OCIE0A 1\<rparr>"

definition setupUnoJoy_int :: "int16_t \<Rightarrow> dataForController_t \<Rightarrow> unojoy \<Rightarrow> unojoy" where
  "setupUnoJoy_int interval uninit st =
     setupUnoJoy uninit (st\<lparr>serialCheckInterval := interval\<rparr>)"

subsection \<open>The timer interrupt\<close>

text \<open>
  \<^verbatim>\<open>((uint8_t*)&controllerDataBuffer)[inByte]\<close> (line 169), read in state \<open>st\<close>: \<^verbatim>\<open>inByte\<close>
  is a \<^verbatim>\<open>byte\<close>, so the index is any of 0..255 and nothing compares it with the size of
  the structure. Below the size it is a byte of the structure; from the size on it is
  the cell of RAM behind it, with the content that cell has in \<open>st\<close>.
\<close>

definition buffer_byte :: "unojoy \<Rightarrow> uint8_t \<Rightarrow> uint8_t" where
  "buffer_byte st inByte =
     (if unat inByte < sizeof_dataForController_t
      then serialize (controllerDataBuffer st) ! unat inByte
      else ram_beyond st (unojoy_vars.truncate st)
             (unat inByte - sizeof_dataForController_t))"

text \<open>
  The \<^verbatim>\<open>while (Serial.available() > 0)\<close> loop (lines 162-171). Each round sets pin 13 to
  output (line 163), takes one byte from the receive buffer (line 166), then reads the
  indexed byte and writes it back (line 169): \<open>st2\<close> is the state in which that read
  takes place. The handler runs with interrupts disabled, so the receive buffer does
  not grow while it loops.
\<close>

function serial_loop :: "unojoy \<Rightarrow> unojoy" where
  "serial_loop st =
     (case Serial_rx st of
        [] \<Rightarrow> st
      | inByte # rest \<Rightarrow>
          (let st1 = st\<lparr>pin13_output := True\<rparr>;
               st2 = st1\<lparr>Serial_rx := rest\<rparr>
           in serial_loop (st2\<lparr>Serial_tx := Serial_tx st2 @ [buffer_byte st2 inByte]\<rparr>)))"
  by pat_completeness auto
termination
  by (relation "measure (\<lambda>st. length (Serial_rx st))") auto

declare serial_loop.simps [simp del]

text \<open>
  \<^verbatim>\<open>ISR(TIMER0_COMPA_vect)\<close> (lines 157-173). \<open>serial_check_due\<close> is the condition of the
  \<^verbatim>\<open>if\<close> on line 159, a signed comparison, read after the increment of line 158.
\<close>

definition serial_check_due :: "unojoy \<Rightarrow> bool" where
  "serial_check_due st \<longleftrightarrow> serialCheckInterval st \<le>s serialCheckCounter st"

definition ISR_TIMER0_COMPA :: "unojoy \<Rightarrow> unojoy" where
  "ISR_TIMER0_COMPA st =
     (let st1 = st\<lparr>serialCheckCounter := serialCheckCounter st + 1\<rparr>
      in if serial_check_due st1
         then serial_loop (st1\<lparr>serialCheckCounter := 0\<rparr>)
         else st1)"

subsection \<open>The surroundings\<close>

text \<open>
  The UnoJoy firmware on the communication chip sends request bytes; the receive
  interrupt of the Arduino core appends them to the receive buffer.
\<close>

definition receive :: "uint8_t list \<Rightarrow> unojoy \<Rightarrow> unojoy" where
  "receive bytes st = st\<lparr>Serial_rx := Serial_rx st @ bytes\<rparr>"

text \<open>
  A run of the timer: one entry of the list per tick, holding the bytes that arrived
  since the tick before (often none).
\<close>

fun ticks :: "uint8_t list list \<Rightarrow> unojoy \<Rightarrow> unojoy" where
  "ticks [] st = st"
| "ticks (arrived # later) st = ticks later (ISR_TIMER0_COMPA (receive arrived st))"

text \<open>The requests for the whole structure, in order: 0, 1, ..., \<^verbatim>\<open>sizeof\<close> - 1.\<close>

definition all_offsets :: "uint8_t list" where
  "all_offsets = map of_nat [0..<sizeof_dataForController_t]"

text \<open>The counter is at rest between 0 and the interval (signed comparisons).\<close>

definition counter_in_range :: "unojoy \<Rightarrow> bool" where
  "counter_in_range st \<longleftrightarrow>
     0 \<le>s serialCheckCounter st \<and> serialCheckCounter st <s serialCheckInterval st"

subsection \<open>The copy, one byte at a time\<close>

text \<open>
  The AVR stores one byte at a time, so the structure assignment of line 113 is seven
  byte stores, and the timer interrupt could be taken between two of them if nothing
  prevented it. \<open>store_byte k b\<close> is what a store of \<open>b\<close> to byte \<open>k\<close> of the object does
  to the fields.
\<close>

definition store_byte :: "nat \<Rightarrow> uint8_t \<Rightarrow> dataForController_t \<Rightarrow> dataForController_t" where
  "store_byte k b d =
     (if k = 0 then
        d\<lparr>triangleOn := ucast b, circleOn := ucast (drop_bit 1 b),
          squareOn := ucast (drop_bit 2 b), crossOn := ucast (drop_bit 3 b),
          l1On := ucast (drop_bit 4 b), l2On := ucast (drop_bit 5 b),
          l3On := ucast (drop_bit 6 b), r1On := ucast (drop_bit 7 b)\<rparr>
      else if k = 1 then
        d\<lparr>r2On := ucast b, r3On := ucast (drop_bit 1 b),
          selectOn := ucast (drop_bit 2 b), startOn := ucast (drop_bit 3 b),
          homeOn := ucast (drop_bit 4 b), dpadLeftOn := ucast (drop_bit 5 b),
          dpadUpOn := ucast (drop_bit 6 b), dpadRightOn := ucast (drop_bit 7 b)\<rparr>
      else if k = 2 then
        d\<lparr>dpadDownOn := ucast b, padding := ucast (drop_bit 1 b)\<rparr>
      else if k = 3 then d\<lparr>leftStickX := b\<rparr>
      else if k = 4 then d\<lparr>leftStickY := b\<rparr>
      else if k = 5 then d\<lparr>rightStickX := b\<rparr>
      else if k = 6 then d\<lparr>rightStickY := b\<rparr>
      else d)"

text \<open>
  The main program is either outside \<^verbatim>\<open>setControllerData\<close> or inside its atomic block,
  with the argument of the call and the number of bytes copied so far.
\<close>

datatype foreground = Outside | Inside dataForController_t nat

text \<open>
  \<open>runs st0 calls (st, fg)\<close>: starting in \<open>st0\<close> outside any call, the machine can be in
  state \<open>st\<close> with the main program at \<open>fg\<close>, after calls of \<^verbatim>\<open>setControllerData\<close> with
  the arguments \<open>calls\<close>, in that order.
  \<^item> \<open>enter\<close>: the call begins; \<^verbatim>\<open>ATOMIC_BLOCK\<close> clears the interrupt flag.
  \<^item> \<open>copy\<close>: one byte of the argument is stored into the buffer.
  \<^item> \<open>leave\<close>: all bytes are copied; \<^verbatim>\<open>ATOMIC_FORCEON\<close> sets the interrupt flag.
  \<^item> \<open>timer\<close>: the timer interrupt is taken, which the hardware allows only while the
    interrupt flag is set; the handler runs to its end before the main program goes on.
  \<^item> \<open>incoming\<close>: bytes from the serial line reach the receive buffer.
\<close>

inductive runs :: "unojoy \<Rightarrow> dataForController_t list \<Rightarrow> unojoy \<times> foreground \<Rightarrow> bool"
  for st0 :: unojoy where
  start: "runs st0 [] (st0, Outside)"
| enter: "runs st0 calls (st, Outside) \<Longrightarrow>
          runs st0 (calls @ [controllerData]) (st\<lparr>SREG_I := False\<rparr>, Inside controllerData 0)"
| copy: "runs st0 calls (st, Inside controllerData k) \<Longrightarrow> k < sizeof_dataForController_t \<Longrightarrow>
         runs st0 calls
           (st\<lparr>controllerDataBuffer :=
                 store_byte k (serialize controllerData ! k) (controllerDataBuffer st)\<rparr>,
            Inside controllerData (Suc k))"
| leave: "runs st0 calls (st, Inside controllerData sizeof_dataForController_t) \<Longrightarrow>
          runs st0 calls (st\<lparr>SREG_I := True\<rparr>, Outside)"
| timer: "runs st0 calls (st, fg) \<Longrightarrow> SREG_I st \<Longrightarrow>
          runs st0 calls (ISR_TIMER0_COMPA st, fg)"
| incoming: "runs st0 calls (st, fg) \<Longrightarrow> runs st0 calls (receive bytes st, fg)"

code_pred runs .

subsection \<open>The state when the sketch starts\<close>

text \<open>
  Objects of static storage duration without an initialiser start as zero
  (\<^verbatim>\<open>controllerDataBuffer\<close>, line 102); \<^verbatim>\<open>serialCheckInterval\<close> starts at 1 and
  \<^verbatim>\<open>serialCheckCounter\<close> at 0 (lines 118 and 121). Nothing has been received or sent,
  the timer compare interrupt is not yet enabled, the Arduino core has enabled
  interrupts globally, and \<open>ram\<close> gives the RAM behind the structure.
\<close>

definition zero_data :: dataForController_t where
  "zero_data =
     \<lparr>triangleOn = 0, circleOn = 0, squareOn = 0, crossOn = 0,
      l1On = 0, l2On = 0, l3On = 0, r1On = 0, r2On = 0, r3On = 0,
      selectOn = 0, startOn = 0, homeOn = 0,
      dpadLeftOn = 0, dpadUpOn = 0, dpadRightOn = 0, dpadDownOn = 0,
      padding = 0,
      leftStickX = 0, leftStickY = 0, rightStickX = 0, rightStickY = 0\<rparr>"

definition before_setup :: "(unojoy_vars \<Rightarrow> nat \<Rightarrow> uint8_t) \<Rightarrow> unojoy" where
  "before_setup ram =
     \<lparr>controllerDataBuffer = zero_data,
      serialCheckInterval = 1,
      serialCheckCounter = 0,
      Serial_rx = [],
      Serial_tx = [],
      Serial_baud = 0,
      OCR0A = 0,
      TIMSK0 = 0,
      pin13_output = False,
      SREG_I = True,
      ram_beyond = ram\<rparr>"

text \<open>
  Sample data for the examples: the down button of the directional pad pressed and four
  different stick values; the data of the header comment (lines 32-34) on top of the
  blank value; and a RAM behind the structure whose first two cells are the two bytes of
  \<^verbatim>\<open>serialCheckCounter\<close>, low byte first, followed by cells that differ from byte to byte.
\<close>

definition dpad_down_data :: dataForController_t where
  "dpad_down_data =
     zero_data\<lparr>dpadDownOn := 1, leftStickX := 10, leftStickY := 20,
               rightStickX := 30, rightStickY := 40\<rparr>"

definition triangle_data :: dataForController_t where
  "triangle_data =
     (getBlankDataForController zero_data)\<lparr>triangleOn := 1, squareOn := 0, leftStickX := 90\<rparr>"

definition sample_ram :: "unojoy_vars \<Rightarrow> nat \<Rightarrow> uint8_t" where
  "sample_ram v k =
     (if k = 0 then ucast (serialCheckCounter v)
      else if k = 1 then ucast (drop_bit 8 (serialCheckCounter v))
      else of_nat k + 0xA0)"

definition sample_state :: unojoy where
  "sample_state = before_setup sample_ram"

section \<open>Properties\<close>

subsection \<open>Bits and bytes of the structure\<close>

lemma bit_bitfield: "bit (bitfield w k) n \<longleftrightarrow> k \<le> n \<and> n < 8 \<and> bit w (n - k)"
  by (auto simp: bitfield_def bit_simps)

lemma bit_1word: "bit (w :: 1 word) n \<longleftrightarrow> n = 0 \<and> w = 1"
proof (cases n)
  case 0
  have "bit w 0 \<Longrightarrow> w = 1"
    by (rule bit_word_eqI) (simp add: bit_simps)
  moreover have "w = 1 \<Longrightarrow> bit w 0"
    by simp
  ultimately show ?thesis using 0 by blast
next
  case (Suc m)
  have "\<not> bit w (Suc m)"
    using bit_imp_le_length [of w "Suc m"] by auto
  then show ?thesis using Suc by simp
qed

lemma odd_bitfield: "odd (bitfield w k) \<longleftrightarrow> k = 0 \<and> bit w 0"
  using bit_bitfield [of w k 0] by (simp add: bit_0)

lemma odd_1word: "odd (w :: 1 word) \<longleftrightarrow> w = 1"
  using bit_1word [of w 0] by (simp add: bit_0)

lemmas field_bits = bit_simps bit_bitfield bit_1word odd_bitfield odd_1word

lemma byte2_low: "take_bit 1 (byte2 d) = ucast (dpadDownOn d)"
  unfolding byte2_def by (rule bit_word_eqI) (simp add: field_bits)

lemma byte2_high: "drop_bit 1 (byte2 d) = ucast (padding d)"
  unfolding byte2_def by (rule bit_word_eqI) (auto simp: field_bits dest: bit_imp_le_length)

lemma length_serialize: "length (serialize d) = sizeof_dataForController_t"
  by (simp add: serialize_def sizeof_dataForController_t_def)

lemma bit_ucast_1: "bit (ucast (w :: uint8_t) :: 1 word) n \<longleftrightarrow> n = 0 \<and> bit w 0"
  by (auto simp: bit_simps)

lemma field_of_byte:
  "(ucast (drop_bit j (b :: uint8_t)) :: 1 word) = 1 \<longleftrightarrow> bit b j"
  using bit_1word [of "ucast (drop_bit j b)" 0] by (simp add: bit_simps del: bit_0)

lemma field_of_byte0: "(ucast (b :: uint8_t) :: 1 word) = 1 \<longleftrightarrow> bit b 0"
  using field_of_byte [of 0 b] by simp

lemma less_8_cases:
  "(j :: nat) < 8 \<Longrightarrow> j = 7 \<or> j = 6 \<or> j = 5 \<or> j = 4 \<or> j = 3 \<or> j = 2 \<or> j = 1 \<or> j = 0"
  by arith

lemmas byte_bits = field_bits field_of_byte field_of_byte0

lemma byte_eqI:
  fixes a b :: uint8_t
  assumes "bit a 0 = bit b 0" "bit a 1 = bit b 1" "bit a 2 = bit b 2" "bit a 3 = bit b 3"
    "bit a 4 = bit b 4" "bit a 5 = bit b 5" "bit a 6 = bit b 6" "bit a 7 = bit b 7"
  shows "a = b"
proof (rule bit_word_eqI)
  fix n :: nat
  assume "n < LENGTH(8)"
  then have "n < 8" by simp
  from less_8_cases [OF this] show "bit a n = bit b n"
    using assms by (elim disjE) simp_all
qed

lemma store_byte_simps:
  "store_byte 0 b d =
        d\<lparr>triangleOn := ucast b, circleOn := ucast (drop_bit 1 b),
          squareOn := ucast (drop_bit 2 b), crossOn := ucast (drop_bit 3 b),
          l1On := ucast (drop_bit 4 b), l2On := ucast (drop_bit 5 b),
          l3On := ucast (drop_bit 6 b), r1On := ucast (drop_bit 7 b)\<rparr>"
  "store_byte 1 b d =
        d\<lparr>r2On := ucast b, r3On := ucast (drop_bit 1 b),
          selectOn := ucast (drop_bit 2 b), startOn := ucast (drop_bit 3 b),
          homeOn := ucast (drop_bit 4 b), dpadLeftOn := ucast (drop_bit 5 b),
          dpadUpOn := ucast (drop_bit 6 b), dpadRightOn := ucast (drop_bit 7 b)\<rparr>"
  "store_byte 2 b d = d\<lparr>dpadDownOn := ucast b, padding := ucast (drop_bit 1 b)\<rparr>"
  "store_byte 3 b d = d\<lparr>leftStickX := b\<rparr>"
  "store_byte 4 b d = d\<lparr>leftStickY := b\<rparr>"
  "store_byte 5 b d = d\<lparr>rightStickX := b\<rparr>"
  "store_byte 6 b d = d\<lparr>rightStickY := b\<rparr>"
  by (simp_all add: store_byte_def)

lemma byte0_store: "byte0 (store_byte 0 b d) = b"
  unfolding byte0_def store_byte_simps
  by (rule byte_eqI; simp add: byte_bits del: bit_0)

lemma byte1_store: "byte1 (store_byte 1 b d) = b"
  unfolding byte1_def store_byte_simps
  by (rule byte_eqI; simp add: byte_bits del: bit_0)

lemma byte2_store: "byte2 (store_byte 2 b d) = b"
  unfolding byte2_def store_byte_simps
proof (rule bit_word_eqI)
  fix n :: nat
  assume "n < LENGTH(8)"
  then have n: "n < 8" by simp
  show "bit (bitfield (dpadDownOn (d\<lparr>dpadDownOn := ucast b, padding := ucast (drop_bit 1 b)\<rparr>)) 0
         OR bitfield (padding (d\<lparr>dpadDownOn := ucast b, padding := ucast (drop_bit 1 b)\<rparr>)) 1) n
        = bit b n"
  proof (cases n)
    case 0
    then show ?thesis by (simp add: byte_bits del: bit_0)
  next
    case (Suc m)
    then show ?thesis using n by (simp add: byte_bits del: bit_0)
  qed
qed

lemma fields_of_bytes:
  "triangleOn d = ucast (byte0 d)" "circleOn d = ucast (drop_bit 1 (byte0 d))"
  "squareOn d = ucast (drop_bit 2 (byte0 d))" "crossOn d = ucast (drop_bit 3 (byte0 d))"
  "l1On d = ucast (drop_bit 4 (byte0 d))" "l2On d = ucast (drop_bit 5 (byte0 d))"
  "l3On d = ucast (drop_bit 6 (byte0 d))" "r1On d = ucast (drop_bit 7 (byte0 d))"
  "r2On d = ucast (byte1 d)" "r3On d = ucast (drop_bit 1 (byte1 d))"
  "selectOn d = ucast (drop_bit 2 (byte1 d))" "startOn d = ucast (drop_bit 3 (byte1 d))"
  "homeOn d = ucast (drop_bit 4 (byte1 d))" "dpadLeftOn d = ucast (drop_bit 5 (byte1 d))"
  "dpadUpOn d = ucast (drop_bit 6 (byte1 d))" "dpadRightOn d = ucast (drop_bit 7 (byte1 d))"
  "dpadDownOn d = ucast (byte2 d)" "padding d = ucast (drop_bit 1 (byte2 d))"
  unfolding byte0_def byte1_def byte2_def
  by (rule bit_word_eqI; auto simp: byte_bits dest: bit_imp_le_length)+

lemma serialize_inject: "serialize a = serialize b \<Longrightarrow> a = b"
proof -
  assume "serialize a = serialize b"
  then have b: "byte0 a = byte0 b" "byte1 a = byte1 b" "byte2 a = byte2 b"
    and s: "leftStickX a = leftStickX b" "leftStickY a = leftStickY b"
     "rightStickX a = rightStickX b" "rightStickY a = rightStickY b"
    by (simp_all add: serialize_def)
  show ?thesis
    by (rule dataForController_t.equality)
       (simp_all add: s, simp_all add: fields_of_bytes b)
qed

lemma less_7_cases:
  "(j :: nat) < 7 \<Longrightarrow> j = 6 \<or> j = 5 \<or> j = 4 \<or> j = 3 \<or> j = 2 \<or> j = 1 \<or> j = 0"
  by arith

lemma serialize_store_byte:
  assumes "k < sizeof_dataForController_t"
  shows "serialize (store_byte k b d) = (serialize d)[k := b]"
proof -
  have other:
    "byte1 (store_byte 0 b d) = byte1 d" "byte2 (store_byte 0 b d) = byte2 d"
    "byte0 (store_byte 1 b d) = byte0 d" "byte2 (store_byte 1 b d) = byte2 d"
    "byte0 (store_byte 2 b d) = byte0 d" "byte1 (store_byte 2 b d) = byte1 d"
    "byte0 (store_byte 3 b d) = byte0 d" "byte1 (store_byte 3 b d) = byte1 d"
    "byte2 (store_byte 3 b d) = byte2 d"
    "byte0 (store_byte 4 b d) = byte0 d" "byte1 (store_byte 4 b d) = byte1 d"
    "byte2 (store_byte 4 b d) = byte2 d"
    "byte0 (store_byte 5 b d) = byte0 d" "byte1 (store_byte 5 b d) = byte1 d"
    "byte2 (store_byte 5 b d) = byte2 d"
    "byte0 (store_byte 6 b d) = byte0 d" "byte1 (store_byte 6 b d) = byte1 d"
    "byte2 (store_byte 6 b d) = byte2 d"
    unfolding store_byte_simps byte0_def byte1_def byte2_def by simp_all
  have c0: "serialize (store_byte 0 b d) = (serialize d)[0 := b]"
    unfolding serialize_def byte0_store other unfolding store_byte_simps by simp
  have c1: "serialize (store_byte 1 b d) = (serialize d)[1 := b]"
    unfolding serialize_def byte1_store other unfolding store_byte_simps by simp
  have c2: "serialize (store_byte 2 b d) = (serialize d)[2 := b]"
    unfolding serialize_def byte2_store other unfolding store_byte_simps by simp
  have c3: "serialize (store_byte 3 b d) = (serialize d)[3 := b]"
    unfolding serialize_def other unfolding store_byte_simps by simp
  have c4: "serialize (store_byte 4 b d) = (serialize d)[4 := b]"
    unfolding serialize_def other unfolding store_byte_simps by simp
  have c5: "serialize (store_byte 5 b d) = (serialize d)[5 := b]"
    unfolding serialize_def other unfolding store_byte_simps by simp
  have c6: "serialize (store_byte 6 b d) = (serialize d)[6 := b]"
    unfolding serialize_def other unfolding store_byte_simps by simp
  have "k < 7"
    using assms by (simp add: sizeof_dataForController_t_def)
  from less_7_cases [OF this] show ?thesis
    using c0 c1 c2 c3 c4 c5 c6 by (elim disjE) (simp_all only:)
qed

lemma copy_prefix:
  assumes "k < sizeof_dataForController_t"
    and "take k (serialize buf) = take k (serialize d)"
  shows "take (Suc k) (serialize (store_byte k (serialize d ! k) buf)) = take (Suc k) (serialize d)"
proof -
  have kb: "k < length (serialize buf)" and kd: "k < length (serialize d)"
    using assms(1) by (simp_all add: length_serialize)
  have "take (Suc k) ((serialize buf)[k := serialize d ! k]) = take k (serialize buf) @ [serialize d ! k]"
    using kb by (simp add: take_Suc_conv_app_nth)
  also have "\<dots> = take (Suc k) (serialize d)"
    using kd assms(2) by (simp add: take_Suc_conv_app_nth)
  finally show ?thesis
    by (simp add: serialize_store_byte [OF assms(1)])
qed

lemma copied_prefix:
  "n \<le> sizeof_dataForController_t \<Longrightarrow>
   take n (serialize (fold (\<lambda>k. store_byte k (serialize d ! k)) [0..<n] buf)) =
   take n (serialize d)"
  by (induction n) (simp_all add: copy_prefix)

lemma copied_all:
  "fold (\<lambda>k. store_byte k (serialize d ! k)) [0..<sizeof_dataForController_t] buf = d"
proof -
  let ?r = "fold (\<lambda>k. store_byte k (serialize d ! k)) [0..<sizeof_dataForController_t] buf"
  have "take (length (serialize ?r)) (serialize ?r) = take (length (serialize d)) (serialize d)"
    using copied_prefix [of sizeof_dataForController_t d buf] by (simp add: length_serialize)
  then have "serialize ?r = serialize d" by simp
  then show ?thesis by (rule serialize_inject)
qed

subsection \<open>The serial loop, the interrupt handler and runs of ticks\<close>

lemma serial_loop_Nil: "Serial_rx st = [] \<Longrightarrow> serial_loop st = st"
  by (subst serial_loop.simps) simp

lemma serial_loop_Cons:
  "Serial_rx st = inByte # rest \<Longrightarrow>
   serial_loop st =
   serial_loop (st\<lparr>pin13_output := True, Serial_rx := rest,
                   Serial_tx := Serial_tx st @
                     [buffer_byte (st\<lparr>pin13_output := True, Serial_rx := rest\<rparr>) inByte]\<rparr>)"
  by (subst serial_loop.simps) (simp add: Let_def)

lemma serial_loop_step:
  "serial_loop st =
   serial_loop (st\<lparr>pin13_output := True, Serial_rx := tl (Serial_rx st),
                   Serial_tx := Serial_tx st @
                     [buffer_byte (st\<lparr>pin13_output := True, Serial_rx := tl (Serial_rx st)\<rparr>)
                        (hd (Serial_rx st))]\<rparr>)"
  if "Serial_rx st \<noteq> []"
proof (cases "Serial_rx st")
  case Nil
  then show ?thesis using that by simp
next
  case (Cons inByte rest)
  from serial_loop_Cons [OF this] show ?thesis
    using Cons by simp
qed

lemma buffer_byte_in_range:
  "unat i < sizeof_dataForController_t \<Longrightarrow>
   buffer_byte st i = serialize (controllerDataBuffer st) ! unat i"
  by (simp add: buffer_byte_def)

lemma serial_loop_rx [simp]: "Serial_rx (serial_loop st) = []"
proof (induction "Serial_rx st" arbitrary: st)
  case Nil
  then show ?case by (simp add: serial_loop_Nil)
next
  case (Cons inByte rest)
  let ?b = "buffer_byte (st\<lparr>pin13_output := True, Serial_rx := rest\<rparr>) inByte"
  let ?st3 = "st\<lparr>pin13_output := True, Serial_rx := rest, Serial_tx := Serial_tx st @ [?b]\<rparr>"
  have rx: "Serial_rx st = inByte # rest" using Cons.hyps(2) by simp
  have "Serial_rx (serial_loop ?st3) = []"
    by (rule Cons.hyps(1)) simp
  then show ?case
    by (simp only: serial_loop_Cons [OF rx])
qed

lemma serial_loop_frame [simp]:
  "controllerDataBuffer (serial_loop st) = controllerDataBuffer st
   \<and> serialCheckInterval (serial_loop st) = serialCheckInterval st
   \<and> serialCheckCounter (serial_loop st) = serialCheckCounter st
   \<and> SREG_I (serial_loop st) = SREG_I st
   \<and> ram_beyond (serial_loop st) = ram_beyond st"
proof (induction "Serial_rx st" arbitrary: st)
  case Nil
  then show ?case by (simp add: serial_loop_Nil)
next
  case (Cons inByte rest)
  let ?b = "buffer_byte (st\<lparr>pin13_output := True, Serial_rx := rest\<rparr>) inByte"
  let ?st3 = "st\<lparr>pin13_output := True, Serial_rx := rest, Serial_tx := Serial_tx st @ [?b]\<rparr>"
  have rx: "Serial_rx st = inByte # rest" using Cons.hyps(2) by simp
  have "controllerDataBuffer (serial_loop ?st3) = controllerDataBuffer ?st3
   \<and> serialCheckInterval (serial_loop ?st3) = serialCheckInterval ?st3
   \<and> serialCheckCounter (serial_loop ?st3) = serialCheckCounter ?st3
   \<and> SREG_I (serial_loop ?st3) = SREG_I ?st3
   \<and> ram_beyond (serial_loop ?st3) = ram_beyond ?st3"
    by (rule Cons.hyps(1)) simp
  then show ?case
    unfolding serial_loop_Cons [OF rx] by simp
qed

text \<open>Every request gets one byte, and the bytes sent before stay in front.\<close>

lemma serial_loop_appends:
  "\<exists>ys. Serial_tx (serial_loop st) = Serial_tx st @ ys \<and> length ys = length (Serial_rx st)"
proof (induction "Serial_rx st" arbitrary: st)
  case Nil
  then show ?case by (simp add: serial_loop_Nil)
next
  case (Cons inByte rest)
  let ?b = "buffer_byte (st\<lparr>pin13_output := True, Serial_rx := rest\<rparr>) inByte"
  let ?st3 = "st\<lparr>pin13_output := True, Serial_rx := rest, Serial_tx := Serial_tx st @ [?b]\<rparr>"
  have rx: "Serial_rx st = inByte # rest" using Cons.hyps(2) by simp
  have "\<exists>ys. Serial_tx (serial_loop ?st3) = Serial_tx ?st3 @ ys
             \<and> length ys = length (Serial_rx ?st3)"
    using Cons.hyps(1) [of ?st3] by simp
  then obtain ys where "Serial_tx (serial_loop ?st3) = (Serial_tx st @ [?b]) @ ys"
    and "length ys = length rest"
    by auto
  then have "Serial_tx (serial_loop st) = Serial_tx st @ (?b # ys)"
    and "length (?b # ys) = length (Serial_rx st)"
    using serial_loop_Cons [OF rx] rx by simp_all
  then show ?case by blast
qed

lemma serial_loop_length:
  "length (Serial_tx (serial_loop st)) = length (Serial_tx st) + length (Serial_rx st)"
  using serial_loop_appends [of st] by auto

lemma serial_loop_prefix:
  "take (length (Serial_tx st)) (Serial_tx (serial_loop st)) = Serial_tx st"
  using serial_loop_appends [of st] by auto

text \<open>
  The answer to request number \<open>k\<close> of a round of the loop is the indexed byte as read
  in the state of that moment: pin 13 set, the requests up to this one taken from the
  receive buffer, the earlier answers sent.
\<close>

lemma serial_loop_nth:
  "k < length (Serial_rx st) \<Longrightarrow>
   Serial_tx (serial_loop st) ! (length (Serial_tx st) + k) =
   buffer_byte
     (st\<lparr>pin13_output := True, Serial_rx := drop (Suc k) (Serial_rx st),
         Serial_tx := take (length (Serial_tx st) + k) (Serial_tx (serial_loop st))\<rparr>)
     (Serial_rx st ! k)"
proof (induction "Serial_rx st" arbitrary: st k)
  case Nil
  then show ?case by simp
next
  case (Cons inByte rest)
  let ?b = "buffer_byte (st\<lparr>pin13_output := True, Serial_rx := rest\<rparr>) inByte"
  let ?st3 = "st\<lparr>pin13_output := True, Serial_rx := rest, Serial_tx := Serial_tx st @ [?b]\<rparr>"
  have rx: "Serial_rx st = inByte # rest" using Cons.hyps(2) by simp
  have loop: "serial_loop st = serial_loop ?st3"
    using rx by (rule serial_loop_Cons)
  obtain ys where ys: "Serial_tx (serial_loop ?st3) = (Serial_tx st @ [?b]) @ ys"
    using serial_loop_appends [of ?st3] by auto
  show ?case
  proof (cases k)
    case 0
    have "Serial_tx (serial_loop st) ! length (Serial_tx st) = ?b"
      using ys by (simp add: loop nth_append)
    moreover have "take (length (Serial_tx st)) (Serial_tx (serial_loop st)) = Serial_tx st"
      by (rule serial_loop_prefix)
    ultimately show ?thesis
      using 0 rx by simp
  next
    case (Suc j)
    then have j: "j < length (Serial_rx ?st3)"
      using Cons.prems rx by simp
    have "Serial_tx (serial_loop ?st3) ! (length (Serial_tx ?st3) + j) =
          buffer_byte
            (?st3\<lparr>pin13_output := True, Serial_rx := drop (Suc j) (Serial_rx ?st3),
               Serial_tx := take (length (Serial_tx ?st3) + j) (Serial_tx (serial_loop ?st3))\<rparr>)
            (Serial_rx ?st3 ! j)"
      using Cons.hyps(1) [of ?st3 j] j by simp
    then show ?thesis
      using Suc rx by (simp add: loop)
  qed
qed

lemma serial_loop_in_range:
  "\<forall>i \<in> set (Serial_rx st). unat i < sizeof_dataForController_t \<Longrightarrow>
   Serial_tx (serial_loop st) =
   Serial_tx st @ map (\<lambda>i. serialize (controllerDataBuffer st) ! unat i) (Serial_rx st)"
proof (induction "Serial_rx st" arbitrary: st)
  case Nil
  then show ?case by (simp add: serial_loop_Nil)
next
  case (Cons inByte rest)
  let ?b = "buffer_byte (st\<lparr>pin13_output := True, Serial_rx := rest\<rparr>) inByte"
  let ?st3 = "st\<lparr>pin13_output := True, Serial_rx := rest, Serial_tx := Serial_tx st @ [?b]\<rparr>"
  have rx: "Serial_rx st = inByte # rest" using Cons.hyps(2) by simp
  have "unat inByte < sizeof_dataForController_t"
    using Cons.prems rx by simp
  then have b: "?b = serialize (controllerDataBuffer st) ! unat inByte"
    by (simp add: buffer_byte_in_range)
  have "\<forall>i \<in> set (Serial_rx ?st3). unat i < sizeof_dataForController_t"
    using Cons.prems rx by simp
  then have "Serial_tx (serial_loop ?st3) =
        Serial_tx ?st3 @ map (\<lambda>i. serialize (controllerDataBuffer ?st3) ! unat i) (Serial_rx ?st3)"
    using Cons.hyps(1) [of ?st3] by simp
  then show ?case
    using serial_loop_Cons [OF rx] rx b by simp
qed

lemma ISR_frame [simp]:
  "controllerDataBuffer (ISR_TIMER0_COMPA st) = controllerDataBuffer st"
  "serialCheckInterval (ISR_TIMER0_COMPA st) = serialCheckInterval st"
  "SREG_I (ISR_TIMER0_COMPA st) = SREG_I st"
  "ram_beyond (ISR_TIMER0_COMPA st) = ram_beyond st"
  by (simp_all add: ISR_TIMER0_COMPA_def Let_def)

lemma receive_frame [simp]:
  "controllerDataBuffer (receive bs st) = controllerDataBuffer st"
  "serialCheckInterval (receive bs st) = serialCheckInterval st"
  "serialCheckCounter (receive bs st) = serialCheckCounter st"
  "SREG_I (receive bs st) = SREG_I st"
  "ram_beyond (receive bs st) = ram_beyond st"
  "Serial_tx (receive bs st) = Serial_tx st"
  "Serial_rx (receive bs st) = Serial_rx st @ bs"
  by (simp_all add: receive_def)

lemma ticks_frame [simp]:
  "controllerDataBuffer (ticks sched st) = controllerDataBuffer st"
  "serialCheckInterval (ticks sched st) = serialCheckInterval st"
  "ram_beyond (ticks sched st) = ram_beyond st"
  by (induction sched arbitrary: st) simp_all

lemma ISR_rx: "Serial_rx (ISR_TIMER0_COMPA st) = [] \<or> Serial_rx (ISR_TIMER0_COMPA st) = Serial_rx st"
  by (simp add: ISR_TIMER0_COMPA_def Let_def)

text \<open>
  While every request is in range, answered and pending bytes together stay the same:
  one tick moves bytes from the right to the left.
\<close>

lemma ISR_stream:
  assumes "\<forall>i \<in> set (Serial_rx st). unat i < sizeof_dataForController_t"
  shows "Serial_tx (ISR_TIMER0_COMPA st) @
           map (\<lambda>i. serialize (controllerDataBuffer st) ! unat i) (Serial_rx (ISR_TIMER0_COMPA st)) =
         Serial_tx st @ map (\<lambda>i. serialize (controllerDataBuffer st) ! unat i) (Serial_rx st)"
proof -
  let ?z = "st\<lparr>serialCheckCounter := 0\<rparr>"
  have "Serial_tx (serial_loop ?z) =
        Serial_tx ?z @ map (\<lambda>i. serialize (controllerDataBuffer ?z) ! unat i) (Serial_rx ?z)"
    using assms by (intro serial_loop_in_range) simp
  then show ?thesis
    by (simp add: ISR_TIMER0_COMPA_def Let_def)
qed

lemma ticks_stream:
  "\<forall>i \<in> set (Serial_rx st @ concat sched). unat i < sizeof_dataForController_t \<Longrightarrow>
   Serial_tx (ticks sched st) @
     map (\<lambda>i. serialize (controllerDataBuffer st) ! unat i) (Serial_rx (ticks sched st)) =
   Serial_tx st @
     map (\<lambda>i. serialize (controllerDataBuffer st) ! unat i) (Serial_rx st @ concat sched)"
proof (induction sched arbitrary: st)
  case Nil
  show ?case by simp
next
  case (Cons arrived later)
  let ?f = "\<lambda>i. serialize (controllerDataBuffer st) ! unat i"
  let ?r = "receive arrived st"
  let ?s = "ISR_TIMER0_COMPA ?r"
  have r_ok: "\<forall>i \<in> set (Serial_rx ?r). unat i < sizeof_dataForController_t"
    using Cons.prems by auto
  have "set (Serial_rx ?s) \<subseteq> set (Serial_rx ?r)"
    using ISR_rx [of ?r] by auto
  then have s_ok: "\<forall>i \<in> set (Serial_rx ?s @ concat later). unat i < sizeof_dataForController_t"
    using Cons.prems by auto
  have "Serial_tx (ticks later ?s) @ map ?f (Serial_rx (ticks later ?s)) =
        Serial_tx ?s @ map ?f (Serial_rx ?s @ concat later)"
    using Cons.IH [OF s_ok] by simp
  also have "\<dots> = (Serial_tx ?s @ map ?f (Serial_rx ?s)) @ map ?f (concat later)"
    by simp
  also have "Serial_tx ?s @ map ?f (Serial_rx ?s) = Serial_tx st @ map ?f (Serial_rx st @ arrived)"
    using ISR_stream [OF r_ok] by simp
  finally show ?case by simp
qed

lemma all_offsets_in_range: "\<forall>i \<in> set all_offsets. unat i < sizeof_dataForController_t"
  by (simp add: all_offsets_def sizeof_dataForController_t_def upt_conv_Cons)

lemma map_all_offsets: "map (\<lambda>i. serialize S ! unat i) all_offsets = serialize S"
  by (simp add: all_offsets_def sizeof_dataForController_t_def serialize_def upt_conv_Cons)

lemma ISR_tx_grows: "length (Serial_tx st) \<le> length (Serial_tx (ISR_TIMER0_COMPA st))"
  by (simp add: ISR_TIMER0_COMPA_def Let_def serial_loop_length)

lemma ticks_tx_grows: "length (Serial_tx st) \<le> length (Serial_tx (ticks sched st))"
proof (induction sched arbitrary: st)
  case Nil
  show ?case by simp
next
  case (Cons arrived later)
  have "length (Serial_tx st) \<le> length (Serial_tx (ISR_TIMER0_COMPA (receive arrived st)))"
    using ISR_tx_grows [of "receive arrived st"] by simp
  also have "\<dots> \<le> length (Serial_tx (ticks later (ISR_TIMER0_COMPA (receive arrived st))))"
    by (rule Cons.IH)
  finally show ?case by simp
qed

lemma quiet_ticks_served:
  assumes "unat i < sizeof_dataForController_t"
    and "Serial_rx st = []" and "Serial_rx (ticks ([i] # replicate m []) st) = []"
  shows "Serial_tx (ticks ([i] # replicate m []) st) =
         Serial_tx st @ [serialize (controllerDataBuffer st) ! unat i]"
proof -
  have "\<forall>j \<in> set (Serial_rx st @ concat ([i] # replicate m [])). unat j < sizeof_dataForController_t"
    using assms(1,2) by simp
  from ticks_stream [OF this] show ?thesis
    using assms(2,3) by simp
qed

subsection \<open>The counter\<close>

lemma sint_succ:
  fixes c :: "16 word"
  assumes "sint c < 32767"
  shows "sint (c + 1) = sint c + 1"
proof -
  have lo: "- (2 ^ 15) \<le> sint c + 1"
    using sint_ge [of c] by simp
  have hi: "sint c + 1 < 2 ^ 15"
    using assms by simp
  have "sint (c + 1) = signed_take_bit 15 (sint c + 1)"
    by (simp add: sint_word_add)
  then show ?thesis
    using signed_take_bit_int_eq_self [OF lo hi] by simp
qed

lemma sint_le_max: "sint (K :: 16 word) \<le> 32767"
  using sint_lt [of K] by simp

lemma counter_in_range_sint:
  "counter_in_range st \<longleftrightarrow>
     0 \<le> sint (serialCheckCounter st) \<and> sint (serialCheckCounter st) < sint (serialCheckInterval st)"
  by (simp add: counter_in_range_def word_sle_eq word_sless_alt)

lemma sint_count:
  assumes "counter_in_range st"
  shows "sint (serialCheckCounter st + 1) = sint (serialCheckCounter st) + 1"
proof -
  have "sint (serialCheckCounter st) < 32767"
    using assms sint_le_max [of "serialCheckInterval st"] by (simp add: counter_in_range_sint)
  then show ?thesis by (rule sint_succ)
qed

lemma due_after_count:
  assumes "counter_in_range st"
  shows "serial_check_due (st\<lparr>serialCheckCounter := serialCheckCounter st + 1\<rparr>) \<longleftrightarrow>
         sint (serialCheckCounter st) + 1 = sint (serialCheckInterval st)"
  using assms sint_count [OF assms]
  by (auto simp: serial_check_due_def word_sle_eq counter_in_range_sint)

lemma ISR_counter:
  assumes "counter_in_range st"
  shows "sint (serialCheckCounter (ISR_TIMER0_COMPA st)) =
         (sint (serialCheckCounter st) + 1) mod sint (serialCheckInterval st)"
proof (cases "sint (serialCheckCounter st) + 1 = sint (serialCheckInterval st)")
  case True
  then show ?thesis
    using due_after_count [OF assms] by (simp add: ISR_TIMER0_COMPA_def Let_def)
next
  case False
  then have "sint (serialCheckCounter st) + 1 < sint (serialCheckInterval st)"
    using assms by (simp add: counter_in_range_sint)
  then show ?thesis
    using False due_after_count [OF assms] sint_count [OF assms] assms
    by (simp add: ISR_TIMER0_COMPA_def Let_def counter_in_range_sint)
qed

lemma ISR_counter_in_range:
  assumes "counter_in_range st"
  shows "counter_in_range (ISR_TIMER0_COMPA st)"
proof -
  have "0 < sint (serialCheckInterval st)"
    using assms by (simp add: counter_in_range_sint)
  then show ?thesis
    using ISR_counter [OF assms] by (simp add: counter_in_range_sint)
qed

lemma counter_in_range_receive [simp]:
  "counter_in_range (receive bs st) = counter_in_range st"
  by (simp add: counter_in_range_def)

lemma ticks_counter_in_range:
  "counter_in_range st \<Longrightarrow> counter_in_range (ticks sched st)"
  by (induction sched arbitrary: st) (simp_all add: ISR_counter_in_range)

lemma ticks_counter:
  assumes "counter_in_range st"
  shows "sint (serialCheckCounter (ticks sched st)) =
         (sint (serialCheckCounter st) + int (length sched)) mod sint (serialCheckInterval st)"
  using assms
proof (induction sched arbitrary: st)
  case Nil
  then show ?case by (simp add: counter_in_range_sint)
next
  case (Cons arrived later)
  let ?s = "ISR_TIMER0_COMPA (receive arrived st)"
  have r: "counter_in_range (receive arrived st)" using Cons.prems by simp
  have "sint (serialCheckCounter (ticks later ?s)) =
        (sint (serialCheckCounter ?s) + int (length later)) mod sint (serialCheckInterval st)"
    using Cons.IH [OF ISR_counter_in_range [OF r]] by simp
  also have "sint (serialCheckCounter ?s) =
             (sint (serialCheckCounter st) + 1) mod sint (serialCheckInterval st)"
    using ISR_counter [OF r] by simp
  finally show ?case
    by (simp add: mod_add_left_eq add.assoc add.commute [of 1])
qed

lemma dvd_succ_mod:
  fixes K n :: int
  assumes "1 \<le> K" "0 \<le> n"
  shows "n mod K + 1 = K \<longleftrightarrow> K dvd 1 + n"
proof
  assume "n mod K + 1 = K"
  then have "(n mod K + 1) mod K = 0" by simp
  then have "(n + 1) mod K = 0" by (simp add: mod_add_left_eq)
  then show "K dvd 1 + n" by (simp add: dvd_eq_mod_eq_0 add.commute)
next
  assume "K dvd 1 + n"
  then have "(n + 1) mod K = 0" by (simp add: dvd_eq_mod_eq_0 add.commute)
  then have z: "(n mod K + 1) mod K = 0" by (simp add: mod_add_left_eq)
  have "0 \<le> n mod K" "n mod K < K" using assms by simp_all
  then show "n mod K + 1 = K"
    using z by (cases "n mod K + 1 < K") simp_all
qed

subsection \<open>The main program and the interrupt, interleaved\<close>

text \<open>
  What holds at every point of a run: outside a call the buffer is a value installed as
  a whole; inside, interrupts are disabled and the first \<open>k\<close> bytes are already those of
  the argument.
\<close>

lemma runs_invariant:
  assumes "runs st0 calls cfg"
  shows "case snd cfg of
           Outside \<Rightarrow> controllerDataBuffer (fst cfg) \<in> set (controllerDataBuffer st0 # calls)
         | Inside d k \<Rightarrow>
             \<not> SREG_I (fst cfg) \<and> k \<le> sizeof_dataForController_t \<and> d \<in> set calls
             \<and> take k (serialize (controllerDataBuffer (fst cfg))) = take k (serialize d)"
  using assms
proof (induction rule: runs.induct)
  case start
  show ?case by simp
next
  case (enter calls st controllerData)
  show ?case by simp
next
  case (copy calls st controllerData k)
  then show ?case by (simp add: copy_prefix)
next
  case (leave calls st controllerData)
  then have "take (length (serialize (controllerDataBuffer st))) (serialize (controllerDataBuffer st))
             = take (length (serialize controllerData)) (serialize controllerData)"
    by (simp add: length_serialize)
  then have "serialize (controllerDataBuffer st) = serialize controllerData"
    by simp
  then have "controllerDataBuffer st = controllerData"
    by (rule serialize_inject)
  then show ?case using leave by simp
next
  case (timer calls st fg)
  then show ?case by (cases fg) simp_all
next
  case (incoming calls st fg bytes)
  then show ?case by (cases fg) (simp_all add: receive_def)
qed

lemma runs_copy:
  assumes "runs st0 calls (st, Inside d 0)"
  shows "n \<le> sizeof_dataForController_t \<Longrightarrow>
         runs st0 calls
           (st\<lparr>controllerDataBuffer :=
                 fold (\<lambda>k. store_byte k (serialize d ! k)) [0..<n] (controllerDataBuffer st)\<rparr>,
            Inside d n)"
proof (induction n)
  case 0
  show ?case using assms by simp
next
  case (Suc n)
  then have "runs st0 calls
           (st\<lparr>controllerDataBuffer :=
                 fold (\<lambda>k. store_byte k (serialize d ! k)) [0..<n] (controllerDataBuffer st)\<rparr>,
            Inside d n)" and "n < sizeof_dataForController_t"
    by simp_all
  from runs.copy [OF this] show ?case by simp
qed

text \<open>A whole call, step by step, does what the function \<open>setControllerData\<close> does at once.\<close>

lemma runs_setControllerData:
  assumes "runs st0 calls (st, Outside)"
  shows "runs st0 (calls @ [d]) (setControllerData d st, Outside)"
proof -
  have "runs st0 (calls @ [d]) (st\<lparr>SREG_I := False\<rparr>, Inside d 0)"
    using assms by (rule runs.enter)
  from runs_copy [OF this, of sizeof_dataForController_t]
  have "runs st0 (calls @ [d])
          (st\<lparr>SREG_I := False, controllerDataBuffer := d\<rparr>, Inside d sizeof_dataForController_t)"
    by (simp add: copied_all)
  from runs.leave [OF this] show ?thesis
    by (simp add: setControllerData_def)
qed

text \<open>
  Inside the atomic block the buffer does pass through mixed values: after four of the
  seven stores it has the new buttons and left stick X over the old remaining sticks,
  with the interrupt flag clear.
\<close>

lemma torn_inside:
  "runs (before_setup ram) [dpad_down_data]
     ((before_setup ram)\<lparr>SREG_I := False,
        controllerDataBuffer := zero_data\<lparr>dpadDownOn := 1, leftStickX := 10\<rparr>\<rparr>, Inside dpad_down_data 4)"
proof -
  have "runs (before_setup ram) ([] @ [dpad_down_data])
          ((before_setup ram)\<lparr>SREG_I := False\<rparr>, Inside dpad_down_data 0)"
    by (rule runs.enter [OF runs.start])
  from runs_copy [OF this, of 4]
  show ?thesis
    by (simp add: sizeof_dataForController_t_def upt_conv_Cons before_setup_def store_byte_def
      serialize_def dpad_down_data_def zero_data_def byte0_def byte1_def byte2_def bitfield_def)
qed

subsection \<open>Evaluating the examples\<close>

lemmas run_defs = ISR_TIMER0_COMPA_def Let_def serial_loop_Nil serial_loop_step receive_def
  setControllerData_def before_setup_def sample_state_def sample_ram_def serial_check_due_def
  buffer_byte_def unojoy_vars.truncate_def sizeof_dataForController_t_def setupUnoJoy_def
  setupUnoJoy_int_def counter_in_range_def

lemmas data_defs = serialize_def triangle_data_def dpad_down_data_def zero_data_def
  getBlankDataForController_def byte0_def byte1_def byte2_def bitfield_def

subsection \<open>C1: the layout of the bytes\<close>

text \<open>
  C1 says that byte 1 holds the remaining button flags together with the padding bits
  and that the four stick values are bytes 2 to 5. The structure declares seventeen
  one-bit flags, not sixteen, so the flags alone fill bytes 0 and 1, the last flag
  (\<^verbatim>\<open>dpadDownOn\<close>) shares byte 2 with the padding, and the sticks are bytes 3 to 6. With
  the down button pressed and the sticks at 10, 20, 30 and 40, byte 2 is 1 and not the
  left stick's X value, byte 5 is the right stick's X value and not its Y value, and
  bit 0 of byte 1 is clear although a button after the first eight is pressed.
\<close>

theorem claimed_layout_fails:
  "serialize dpad_down_data ! 2 \<noteq> leftStickX dpad_down_data
   \<and> serialize dpad_down_data ! 5 \<noteq> rightStickY dpad_down_data
   \<and> \<not> bit (serialize dpad_down_data ! 1) 0
   \<and> dpadDownOn dpad_down_data = 1"
  by (simp add: data_defs)

text \<open>
  C1 as amended: for every value of the structure the object has seven bytes. Bits 0 to 7
  of byte 0 are the first eight flags in the order of declaration (\<^verbatim>\<open>triangleOn\<close> to
  \<^verbatim>\<open>r1On\<close>), bits 0 to 7 of byte 1 are the next eight (\<^verbatim>\<open>r2On\<close> to \<^verbatim>\<open>dpadRightOn\<close>), bit 0 of
  byte 2 is \<^verbatim>\<open>dpadDownOn\<close> and its bits 1 to 7 are the seven padding bits, and bytes 3, 4,
  5 and 6 are \<^verbatim>\<open>leftStickX\<close>, \<^verbatim>\<open>leftStickY\<close>, \<^verbatim>\<open>rightStickX\<close> and \<^verbatim>\<open>rightStickY\<close>.
\<close>

theorem serialize_layout:
  "length (serialize d) = 7
   \<and> map (bit (serialize d ! 0)) [0, 1, 2, 3, 4, 5, 6, 7] =
       map (\<lambda>w. w = 1) [triangleOn d, circleOn d, squareOn d, crossOn d,
                          l1On d, l2On d, l3On d, r1On d]
   \<and> map (bit (serialize d ! 1)) [0, 1, 2, 3, 4, 5, 6, 7] =
       map (\<lambda>w. w = 1) [r2On d, r3On d, selectOn d, startOn d,
                          homeOn d, dpadLeftOn d, dpadUpOn d, dpadRightOn d]
   \<and> take_bit 1 (serialize d ! 2) = ucast (dpadDownOn d)
   \<and> drop_bit 1 (serialize d ! 2) = ucast (padding d)
   \<and> serialize d ! 3 = leftStickX d
   \<and> serialize d ! 4 = leftStickY d
   \<and> serialize d ! 5 = rightStickX d
   \<and> serialize d ! 6 = rightStickY d"
proof -
  have b0: "map (bit (byte0 d)) [0, 1, 2, 3, 4, 5, 6, 7] =
       map (\<lambda>w. w = 1) [triangleOn d, circleOn d, squareOn d, crossOn d,
                          l1On d, l2On d, l3On d, r1On d]"
    by (simp add: byte0_def field_bits)
  have b1: "map (bit (byte1 d)) [0, 1, 2, 3, 4, 5, 6, 7] =
       map (\<lambda>w. w = 1) [r2On d, r3On d, selectOn d, startOn d,
                          homeOn d, dpadLeftOn d, dpadUpOn d, dpadRightOn d]"
    by (simp add: byte1_def field_bits)
  have nth: "serialize d ! 0 = byte0 d" "serialize d ! 1 = byte1 d" "serialize d ! 2 = byte2 d"
    "serialize d ! 3 = leftStickX d" "serialize d ! 4 = leftStickY d"
    "serialize d ! 5 = rightStickX d" "serialize d ! 6 = rightStickY d"
    by (simp_all add: serialize_def)
  have len: "length (serialize d) = 7"
    by (simp add: serialize_def)
  show ?thesis
    unfolding nth using b0 b1 byte2_low [of d] byte2_high [of d] len by simp
qed

subsection \<open>C2: polling all offsets after a submit\<close>

text \<open>
  C2: after \<^verbatim>\<open>setControllerData S\<close>, with nothing pending before and no further submit,
  let the requests 0, 1, ..., 6 arrive in this order, spread over any number of timer
  ticks in any way. At every moment the bytes written since are the first bytes of the
  serialized \<open>S\<close>, as many as requests have been taken from the receive buffer; once no
  request is pending they are exactly the seven bytes of \<open>S\<close>, padding bits included.
\<close>

theorem poll_roundtrip:
  assumes "Serial_rx st = []" and "concat sched = all_offsets"
  shows "Serial_tx (ticks sched (setControllerData S st)) =
           Serial_tx st @
           take (sizeof_dataForController_t
                   - length (Serial_rx (ticks sched (setControllerData S st))))
                (serialize S)
       \<and> (Serial_rx (ticks sched (setControllerData S st)) = [] \<longrightarrow>
            Serial_tx (ticks sched (setControllerData S st)) = Serial_tx st @ serialize S)"
proof -
  let ?st = "setControllerData S st"
  let ?fin = "ticks sched ?st"
  have buf: "controllerDataBuffer ?st = S" and rx: "Serial_rx ?st = []"
    and tx: "Serial_tx ?st = Serial_tx st"
    using assms(1) by (simp_all add: setControllerData_def)
  have ok: "\<forall>i \<in> set (Serial_rx ?st @ concat sched). unat i < sizeof_dataForController_t"
    using all_offsets_in_range by (simp add: rx assms(2))
  have "Serial_tx ?fin @ map (\<lambda>i. serialize (controllerDataBuffer ?st) ! unat i) (Serial_rx ?fin) =
        Serial_tx ?st @
        map (\<lambda>i. serialize (controllerDataBuffer ?st) ! unat i) (Serial_rx ?st @ concat sched)"
    using ok by (rule ticks_stream)
  also have "\<dots> = Serial_tx st @ serialize S"
    by (simp add: rx tx buf assms(2) map_all_offsets)
  finally have eq: "Serial_tx ?fin @ map (\<lambda>i. serialize S ! unat i) (Serial_rx ?fin) =
                    Serial_tx st @ serialize S"
    by (simp only: buf)
  have "length (Serial_tx ?fin) + length (Serial_rx ?fin) =
        length (Serial_tx st) + sizeof_dataForController_t"
    using arg_cong [OF eq, of length] by (simp add: length_serialize)
  then have len: "length (Serial_tx ?fin) =
        length (Serial_tx st) + (sizeof_dataForController_t - length (Serial_rx ?fin))"
    using ticks_tx_grows [of ?st sched] by (simp add: tx)
  have "Serial_tx ?fin = take (length (Serial_tx ?fin)) (Serial_tx st @ serialize S)"
    using arg_cong [OF eq, of "take (length (Serial_tx ?fin))"] by simp
  also have "\<dots> = Serial_tx st @
      take (sizeof_dataForController_t - length (Serial_rx ?fin)) (serialize S)"
    by (simp add: len)
  finally have pre: "Serial_tx ?fin = Serial_tx st @
      take (sizeof_dataForController_t - length (Serial_rx ?fin)) (serialize S)" .
  have "Serial_tx ?fin = Serial_tx st @ serialize S" if "Serial_rx ?fin = []"
    using pre that by (simp add: length_serialize)
  then show ?thesis using pre by blast
qed

theorem poll_roundtrip_witness:
  "Serial_rx sample_state = []
   \<and> concat [[0], [1], [2], [3], [4], [5], [6]] = all_offsets
   \<and> Serial_rx (ticks [[0], [1], [2], [3], [4], [5], [6]]
                (setControllerData triangle_data sample_state)) = []
   \<and> Serial_tx (ticks [[0], [1], [2], [3], [4], [5], [6]]
                (setControllerData triangle_data sample_state))
       = [1, 0, 0, 90, 128, 128, 128]"
proof -
  let ?st = "sample_state"
  let ?sched = "[[0], [1], [2], [3], [4], [5], [6 :: uint8_t]]"
  have h1: "Serial_rx ?st = []"
    by (simp add: run_defs)
  have h2: "concat ?sched = all_offsets"
    by (simp add: all_offsets_def sizeof_dataForController_t_def upt_conv_Cons)
  have h3: "Serial_rx (ticks ?sched (setControllerData triangle_data ?st)) = []"
    by (simp add: run_defs)
  have s: "serialize triangle_data = [1, 0, 0, 90, 128, 128, 128]"
    by (simp add: data_defs)
  have t: "Serial_tx ?st = []"
    by (simp add: run_defs)
  from poll_roundtrip [OF h1 h2, of triangle_data]
  have "Serial_rx (ticks ?sched (setControllerData triangle_data ?st)) = [] \<longrightarrow>
        Serial_tx (ticks ?sched (setControllerData triangle_data ?st)) =
        Serial_tx ?st @ serialize triangle_data"
    by (rule conjunct2)
  from this h3
  have "Serial_tx (ticks ?sched (setControllerData triangle_data ?st)) =
        Serial_tx ?st @ serialize triangle_data"
    by (rule mp)
  then have r: "Serial_tx (ticks ?sched (setControllerData triangle_data ?st)) =
        [1, 0, 0, 90, 128, 128, 128]"
    by (simp only: s t append_Nil)
  show ?thesis
    using h1 h2 h3 r by (intro conjI)
qed

subsection \<open>C3: the handler never sees a half-copied structure\<close>

text \<open>
  C3: let the main program call \<^verbatim>\<open>setControllerData\<close> any number of times while timer
  interrupts and incoming bytes occur at any point the hardware allows. Whenever the
  interrupt handler can start (the interrupt flag is set), the main program is outside
  the atomic block and the buffer is, as a whole, either the value it had at the start
  or the argument of one of the calls made so far; the handler leaves it unchanged, so
  every in-range byte it sends is a byte of that one value.
\<close>

theorem no_torn_read:
  assumes "runs st0 calls (st, fg)" and "SREG_I st"
  shows "fg = Outside
       \<and> controllerDataBuffer st \<in> set (controllerDataBuffer st0 # calls)
       \<and> controllerDataBuffer (ISR_TIMER0_COMPA st) = controllerDataBuffer st
       \<and> (\<forall>i \<in> set (Serial_rx st). unat i < sizeof_dataForController_t \<longrightarrow>
            buffer_byte st i = serialize (controllerDataBuffer st) ! unat i)"
proof -
  have out: "fg = Outside"
    using runs_invariant [OF assms(1)] assms(2) by (cases fg) simp_all
  then have "controllerDataBuffer st \<in> set (controllerDataBuffer st0 # calls)"
    using runs_invariant [OF assms(1)] by simp
  then show ?thesis using out by (simp add: buffer_byte_def)
qed

theorem no_torn_read_witness:
  "runs sample_state [triangle_data, dpad_down_data]
     (ISR_TIMER0_COMPA (receive [0, 3]
        (setControllerData dpad_down_data
          (ISR_TIMER0_COMPA (setControllerData triangle_data sample_state)))), Outside)
   \<and> SREG_I (ISR_TIMER0_COMPA (receive [0, 3]
        (setControllerData dpad_down_data
          (ISR_TIMER0_COMPA (setControllerData triangle_data sample_state)))))
   \<and> controllerDataBuffer (ISR_TIMER0_COMPA (receive [0, 3]
        (setControllerData dpad_down_data
          (ISR_TIMER0_COMPA (setControllerData triangle_data sample_state)))))
       \<in> {zero_data, triangle_data, dpad_down_data}"
proof -
  let ?st0 = "sample_state"
  let ?a = "setControllerData triangle_data ?st0"
  let ?b = "ISR_TIMER0_COMPA ?a"
  let ?c = "setControllerData dpad_down_data ?b"
  let ?d = "ISR_TIMER0_COMPA (receive [0, 3] ?c)"
  have ra: "runs ?st0 ([] @ [triangle_data]) (?a, Outside)"
    by (rule runs_setControllerData [OF runs.start])
  have "SREG_I ?a" by (simp add: setControllerData_def)
  with ra have rb: "runs ?st0 ([] @ [triangle_data]) (?b, Outside)"
    by (rule runs.timer)
  have rc: "runs ?st0 (([] @ [triangle_data]) @ [dpad_down_data]) (?c, Outside)"
    using rb by (rule runs_setControllerData)
  have "SREG_I (receive [0, 3] ?c)" by (simp add: setControllerData_def receive_def)
  with runs.incoming [OF rc, of "[0, 3]"]
  have "runs ?st0 (([] @ [triangle_data]) @ [dpad_down_data]) (?d, Outside)"
    by (rule runs.timer)
  then have rd: "runs ?st0 [triangle_data, dpad_down_data] (?d, Outside)"
    by simp
  have i: "SREG_I ?d"
    by (simp add: run_defs)
  have z: "controllerDataBuffer ?st0 = zero_data"
    by (simp add: run_defs)
  have "controllerDataBuffer ?d \<in> set (controllerDataBuffer ?st0 # [triangle_data, dpad_down_data])"
    using no_torn_read [OF rd i] by blast
  then have "controllerDataBuffer ?d \<in> {zero_data, triangle_data, dpad_down_data}"
    by (simp only: z) simp
  then show ?thesis
    using rd i by (intro conjI)
qed

text \<open>
  The statement is about one run of the handler. Requests answered by different runs of
  the handler are answered from the buffer as it is at each run: here offset 0 is
  answered before a second call of \<^verbatim>\<open>setControllerData\<close> and offset 3 after it.
\<close>

lemma answers_of_two_ticks:
  "Serial_tx (ticks [[3]] (setControllerData dpad_down_data
      (ticks [[0]] (setControllerData triangle_data sample_state)))) = [1, 10]
   \<and> serialize triangle_data = [1, 0, 0, 90, 128, 128, 128]
   \<and> serialize dpad_down_data = [0, 0, 1, 10, 20, 30, 40]"
  by (simp add: run_defs data_defs)

subsection \<open>C4: a request past the end of the structure\<close>

text \<open>
  C4 says that a request byte of 7 or more is treated as a failure under one policy and
  never reads the memory next to the structure. The handler has no such check: in the
  sample state the request 9 is consumed and answered with 0xA2, which is what the
  cell two bytes behind the structure holds and not one of the structure's own bytes.
\<close>

theorem out_of_range_unchecked:
  "Serial_tx (ISR_TIMER0_COMPA (receive [9] sample_state)) = [0xA2]
   \<and> Serial_rx (ISR_TIMER0_COMPA (receive [9] sample_state)) = []
   \<and> 0xA2 \<notin> set (serialize (controllerDataBuffer sample_state))"
  by (simp add: run_defs data_defs)

text \<open>
  C4 as amended: a request byte of 7 or more gets no range check and no failure policy.
  On a tick whose serial check is due, every pending request is consumed and answered
  with one byte, and the answer to a request \<open>i\<close> of 7 or more is what the memory cell
  \<open>i - 7\<close> bytes behind the structure holds when line 169 reads it, that is after the
  handler has reset the counter, set pin 13 and taken the requests up to this one from
  the receive buffer. The stored structure is left as it was.
\<close>

theorem out_of_range_reads_beyond:
  assumes "serial_check_due (st\<lparr>serialCheckCounter := serialCheckCounter st + 1\<rparr>)"
    and "k < length (Serial_rx st)"
    and "sizeof_dataForController_t \<le> unat (Serial_rx st ! k)"
  shows "Serial_rx (ISR_TIMER0_COMPA st) = []
       \<and> length (Serial_tx (ISR_TIMER0_COMPA st)) = length (Serial_tx st) + length (Serial_rx st)
       \<and> take (length (Serial_tx st)) (Serial_tx (ISR_TIMER0_COMPA st)) = Serial_tx st
       \<and> Serial_tx (ISR_TIMER0_COMPA st) ! (length (Serial_tx st) + k) =
           ram_beyond st
             (unojoy_vars.truncate
                (st\<lparr>serialCheckCounter := 0, pin13_output := True,
                    Serial_rx := drop (Suc k) (Serial_rx st),
                    Serial_tx := take (length (Serial_tx st) + k)
                                   (Serial_tx (ISR_TIMER0_COMPA st))\<rparr>))
             (unat (Serial_rx st ! k) - sizeof_dataForController_t)
       \<and> controllerDataBuffer (ISR_TIMER0_COMPA st) = controllerDataBuffer st"
proof -
  let ?z = "st\<lparr>serialCheckCounter := 0\<rparr>"
  have isr: "ISR_TIMER0_COMPA st = serial_loop ?z"
    using assms(1) by (simp add: ISR_TIMER0_COMPA_def Let_def)
  have k: "k < length (Serial_rx ?z)"
    using assms(2) by simp
  have "Serial_tx (serial_loop ?z) ! (length (Serial_tx ?z) + k) =
        buffer_byte
          (?z\<lparr>pin13_output := True, Serial_rx := drop (Suc k) (Serial_rx ?z),
              Serial_tx := take (length (Serial_tx ?z) + k) (Serial_tx (serial_loop ?z))\<rparr>)
          (Serial_rx ?z ! k)"
    using k by (rule serial_loop_nth)
  then have nth: "Serial_tx (ISR_TIMER0_COMPA st) ! (length (Serial_tx st) + k) =
           ram_beyond st
             (unojoy_vars.truncate
                (st\<lparr>serialCheckCounter := 0, pin13_output := True,
                    Serial_rx := drop (Suc k) (Serial_rx st),
                    Serial_tx := take (length (Serial_tx st) + k)
                                   (Serial_tx (ISR_TIMER0_COMPA st))\<rparr>))
             (unat (Serial_rx st ! k) - sizeof_dataForController_t)"
    using assms(3) by (simp add: isr buffer_byte_def)
  have len: "length (Serial_tx (ISR_TIMER0_COMPA st)) = length (Serial_tx st) + length (Serial_rx st)"
    using serial_loop_length [of ?z] by (simp add: isr)
  have pre: "take (length (Serial_tx st)) (Serial_tx (ISR_TIMER0_COMPA st)) = Serial_tx st"
    using serial_loop_prefix [of ?z] by (simp add: isr)
  have rx: "Serial_rx (ISR_TIMER0_COMPA st) = []"
    by (simp add: isr)
  show ?thesis
    using rx len pre nth by simp
qed

theorem out_of_range_reads_beyond_witness:
  "serial_check_due
     ((receive [7, 9] (sample_state\<lparr>serialCheckInterval := 3, serialCheckCounter := 2\<rparr>))
        \<lparr>serialCheckCounter := 2 + 1\<rparr>)
   \<and> sizeof_dataForController_t \<le> unat (7 :: uint8_t)
   \<and> sample_ram (unojoy_vars.truncate
         (receive [7, 9] (sample_state\<lparr>serialCheckInterval := 3, serialCheckCounter := 2\<rparr>))) 0 = 2
   \<and> Serial_tx (ISR_TIMER0_COMPA
         (receive [7, 9] (sample_state\<lparr>serialCheckInterval := 3, serialCheckCounter := 2\<rparr>))) ! 0 = 0
   \<and> Serial_tx (ISR_TIMER0_COMPA
         (receive [7, 9] (sample_state\<lparr>serialCheckInterval := 3, serialCheckCounter := 2\<rparr>)))
       = [0, 0xA2]"
proof -
  let ?st = "receive [7, 9] (sample_state\<lparr>serialCheckInterval := 3, serialCheckCounter := 2\<rparr>)"
  have c: "serialCheckCounter ?st = 2" and rx: "Serial_rx ?st = [7, 9]"
    and tx: "Serial_tx ?st = []" and ram: "ram_beyond ?st = sample_ram"
    by (simp_all add: run_defs)
  have h1: "serial_check_due (?st\<lparr>serialCheckCounter := serialCheckCounter ?st + 1\<rparr>)"
    by (simp add: run_defs word_sle_eq)
  have h2: "0 < length (Serial_rx ?st)"
    by (simp only: rx) simp
  have h3: "sizeof_dataForController_t \<le> unat (Serial_rx ?st ! 0)"
    by (simp only: rx) (simp add: sizeof_dataForController_t_def)
  have before: "sample_ram (unojoy_vars.truncate ?st) 0 = 2"
    by (simp add: run_defs)
  have "Serial_tx (ISR_TIMER0_COMPA ?st) ! (length (Serial_tx ?st) + 0) =
           ram_beyond ?st
             (unojoy_vars.truncate
                (?st\<lparr>serialCheckCounter := 0, pin13_output := True,
                    Serial_rx := drop (Suc 0) (Serial_rx ?st),
                    Serial_tx := take (length (Serial_tx ?st) + 0)
                                   (Serial_tx (ISR_TIMER0_COMPA ?st))\<rparr>))
             (unat (Serial_rx ?st ! 0) - sizeof_dataForController_t)"
    using out_of_range_reads_beyond [OF h1 h2 h3] by blast
  also have "\<dots> = 0"
    by (simp add: run_defs)
  finally have first: "Serial_tx (ISR_TIMER0_COMPA ?st) ! 0 = 0"
    by (simp only: tx) simp
  have all: "Serial_tx (ISR_TIMER0_COMPA ?st) = [0, 0xA2]"
    by (simp add: run_defs word_sle_eq)
  have h3': "sizeof_dataForController_t \<le> unat (7 :: uint8_t)"
    by (simp add: sizeof_dataForController_t_def)
  show ?thesis
    using h1 h3' before first all by (simp only: c)
qed

subsection \<open>C5: the cadence of the serial check\<close>

text \<open>
  C5: with an interval \<open>K \<ge> 1\<close> and the counter at 0, whatever arrives on the serial
  line, tick number \<open>n\<close> (counting from 1) takes the branch that checks the serial port
  exactly when \<open>K\<close> divides \<open>n\<close>: on those ticks the handler resets the counter and
  runs the serial loop, which empties the receive buffer and sends one byte per
  request (for requests in range, the bytes of the stored structure); on all other
  ticks it only counts, and neither buffer changes.
\<close>

theorem serial_check_cadence:
  assumes "1 \<le>s serialCheckInterval st" and "serialCheckCounter st = 0"
  shows "(serial_check_due
            ((receive arrived (ticks earlier st))
               \<lparr>serialCheckCounter := serialCheckCounter (receive arrived (ticks earlier st)) + 1\<rparr>)
          \<longleftrightarrow> sint (serialCheckInterval st) dvd 1 + int (length earlier))
       \<and> ISR_TIMER0_COMPA (receive arrived (ticks earlier st)) =
           (if sint (serialCheckInterval st) dvd 1 + int (length earlier)
            then serial_loop ((receive arrived (ticks earlier st))\<lparr>serialCheckCounter := 0\<rparr>)
            else (receive arrived (ticks earlier st))
                   \<lparr>serialCheckCounter :=
                      serialCheckCounter (receive arrived (ticks earlier st)) + 1\<rparr>)
       \<and> Serial_rx (ISR_TIMER0_COMPA (receive arrived (ticks earlier st))) =
           (if sint (serialCheckInterval st) dvd 1 + int (length earlier) then []
            else Serial_rx (ticks earlier st) @ arrived)
       \<and> length (Serial_tx (ISR_TIMER0_COMPA (receive arrived (ticks earlier st)))) =
           length (Serial_tx (ticks earlier st)) +
           (if sint (serialCheckInterval st) dvd 1 + int (length earlier)
            then length (Serial_rx (ticks earlier st) @ arrived) else 0)
       \<and> take (length (Serial_tx (ticks earlier st)))
            (Serial_tx (ISR_TIMER0_COMPA (receive arrived (ticks earlier st)))) =
           Serial_tx (ticks earlier st)
       \<and> ((\<forall>i \<in> set (Serial_rx (ticks earlier st) @ arrived).
              unat i < sizeof_dataForController_t) \<longrightarrow>
           Serial_tx (ISR_TIMER0_COMPA (receive arrived (ticks earlier st))) =
           Serial_tx (ticks earlier st) @
           (if sint (serialCheckInterval st) dvd 1 + int (length earlier)
            then map (\<lambda>i. serialize (controllerDataBuffer st) ! unat i)
                   (Serial_rx (ticks earlier st) @ arrived)
            else []))"
proof -
  let ?K = "sint (serialCheckInterval st)"
  let ?s = "receive arrived (ticks earlier st)"
  let ?z = "?s\<lparr>serialCheckCounter := 0\<rparr>"
  have K: "1 \<le> ?K" using assms(1) by (simp add: word_sle_eq)
  have r0: "counter_in_range st"
    using assms K by (simp add: counter_in_range_sint)
  have r: "counter_in_range ?s"
    using ticks_counter_in_range [OF r0, of earlier] by simp
  have c: "sint (serialCheckCounter ?s) = int (length earlier) mod ?K"
    using ticks_counter [OF r0, of earlier] assms(2) by simp
  have due: "serial_check_due (?s\<lparr>serialCheckCounter := serialCheckCounter ?s + 1\<rparr>)
             \<longleftrightarrow> ?K dvd 1 + int (length earlier)"
    using due_after_count [OF r] c dvd_succ_mod [OF K, of "int (length earlier)"] by simp
  have isr: "ISR_TIMER0_COMPA ?s =
           (if ?K dvd 1 + int (length earlier) then serial_loop ?z
            else ?s\<lparr>serialCheckCounter := serialCheckCounter ?s + 1\<rparr>)"
    using due by (simp add: ISR_TIMER0_COMPA_def Let_def)
  have len: "length (Serial_tx (serial_loop ?z)) =
             length (Serial_tx (ticks earlier st)) + length (Serial_rx (ticks earlier st) @ arrived)"
    using serial_loop_length [of ?z] by simp
  have pre: "take (length (Serial_tx (ticks earlier st))) (Serial_tx (serial_loop ?z)) =
             Serial_tx (ticks earlier st)"
    using serial_loop_prefix [of ?z] by simp
  have inr: "Serial_tx (serial_loop ?z) =
             Serial_tx (ticks earlier st) @
             map (\<lambda>i. serialize (controllerDataBuffer st) ! unat i)
               (Serial_rx (ticks earlier st) @ arrived)"
    if "\<forall>i \<in> set (Serial_rx (ticks earlier st) @ arrived). unat i < sizeof_dataForController_t"
    using serial_loop_in_range [of ?z] that by simp
  show ?thesis
  proof (cases "?K dvd 1 + int (length earlier)")
    case True
    then show ?thesis
      using due isr len pre inr by simp
  next
    case False
    then show ?thesis
      using due isr by simp
  qed
qed

theorem serial_check_cadence_witness:
  "1 \<le>s serialCheckInterval (setupUnoJoy_int 3 zero_data sample_state)
   \<and> serialCheckCounter (setupUnoJoy_int 3 zero_data sample_state) = 0
   \<and> Serial_tx (ISR_TIMER0_COMPA (receive [3]
        (ticks [[], []] (setupUnoJoy_int 3 zero_data sample_state)))) = [128]
   \<and> Serial_tx (ISR_TIMER0_COMPA (receive [3]
        (ticks [[], [], []] (setupUnoJoy_int 3 zero_data sample_state)))) = []"
proof -
  let ?st = "setupUnoJoy_int 3 zero_data sample_state"
  have h1: "1 \<le>s serialCheckInterval ?st"
    by (simp add: run_defs word_sle_eq)
  have h2: "serialCheckCounter ?st = 0"
    by (simp add: run_defs)
  have K: "sint (serialCheckInterval ?st) = 3"
    by (simp add: run_defs)
  have tx: "Serial_tx (ticks [[], []] ?st) = []" "Serial_rx (ticks [[], []] ?st) = []"
    "Serial_tx (ticks [[], [], []] ?st) = []" "Serial_rx (ticks [[], [], []] ?st) = []"
    by (simp_all add: run_defs word_sle_eq)
  have b: "serialize (controllerDataBuffer ?st) ! 3 = 128"
    by (simp add: run_defs data_defs)
  have ok: "\<forall>i \<in> set (Serial_rx (ticks [[], []] ?st) @ [3]). unat i < sizeof_dataForController_t"
    "\<forall>i \<in> set (Serial_rx (ticks [[], [], []] ?st) @ [3]). unat i < sizeof_dataForController_t"
    by (simp_all only: tx) (simp_all add: sizeof_dataForController_t_def)
  from serial_check_cadence [OF h1 h2, of "[3]" "[[], []]"] ok(1)
  have "Serial_tx (ISR_TIMER0_COMPA (receive [3] (ticks [[], []] ?st))) =
           Serial_tx (ticks [[], []] ?st) @
           (if sint (serialCheckInterval ?st) dvd 1 + int (length [[], [] :: uint8_t list])
            then map (\<lambda>i. serialize (controllerDataBuffer ?st) ! unat i)
                   (Serial_rx (ticks [[], []] ?st) @ [3])
            else [])"
    by blast
  also have "\<dots> = [128]"
    by (simp only: K tx) (simp add: b)
  finally have a: "Serial_tx (ISR_TIMER0_COMPA (receive [3] (ticks [[], []] ?st))) = [128]" .
  from serial_check_cadence [OF h1 h2, of "[3]" "[[], [], []]"] ok(2)
  have "Serial_tx (ISR_TIMER0_COMPA (receive [3] (ticks [[], [], []] ?st))) =
           Serial_tx (ticks [[], [], []] ?st) @
           (if sint (serialCheckInterval ?st) dvd 1 + int (length [[], [], [] :: uint8_t list])
            then map (\<lambda>i. serialize (controllerDataBuffer ?st) ! unat i)
                   (Serial_rx (ticks [[], [], []] ?st) @ [3])
            else [])"
    by blast
  also have "\<dots> = []"
    by (simp only: K tx) simp
  finally have c: "Serial_tx (ISR_TIMER0_COMPA (receive [3] (ticks [[], [], []] ?st))) = []" .
  show ?thesis
    using h1 h2 a c by (intro conjI)
qed

subsection \<open>C6: the loop drains the receive buffer\<close>

text \<open>
  C6: the loop ends with the receive buffer empty, having written exactly one byte per
  request it found there, in order, behind what had been sent before. The answer to
  request number \<open>k\<close> is the indexed byte as read at that moment; for a request \<open>i\<close> in
  range that is byte \<open>i\<close> of the stored structure. The loop is defined for every state,
  and with nothing buffered it returns at once and changes nothing. A tick whose check
  is due runs exactly this loop.
\<close>

theorem serial_loop_drains:
  "Serial_rx (serial_loop st) = []
   \<and> length (Serial_tx (serial_loop st)) = length (Serial_tx st) + length (Serial_rx st)
   \<and> take (length (Serial_tx st)) (Serial_tx (serial_loop st)) = Serial_tx st
   \<and> (\<forall>k < length (Serial_rx st).
         Serial_tx (serial_loop st) ! (length (Serial_tx st) + k) =
         buffer_byte
           (st\<lparr>pin13_output := True, Serial_rx := drop (Suc k) (Serial_rx st),
               Serial_tx := take (length (Serial_tx st) + k) (Serial_tx (serial_loop st))\<rparr>)
           (Serial_rx st ! k))
   \<and> (\<forall>k < length (Serial_rx st). unat (Serial_rx st ! k) < sizeof_dataForController_t \<longrightarrow>
         Serial_tx (serial_loop st) ! (length (Serial_tx st) + k) =
         serialize (controllerDataBuffer st) ! unat (Serial_rx st ! k))
   \<and> ((\<forall>i \<in> set (Serial_rx st). unat i < sizeof_dataForController_t) \<longrightarrow>
         Serial_tx (serial_loop st) =
         Serial_tx st @ map (\<lambda>i. serialize (controllerDataBuffer st) ! unat i) (Serial_rx st))
   \<and> (\<forall>i \<in> set (Serial_rx st). unat i < sizeof_dataForController_t \<longrightarrow>
          buffer_byte st i = serialize (controllerDataBuffer st) ! unat i)
   \<and> (Serial_rx st = [] \<longrightarrow> serial_loop st = st)
   \<and> (serial_check_due (st\<lparr>serialCheckCounter := serialCheckCounter st + 1\<rparr>) \<longrightarrow>
         ISR_TIMER0_COMPA st = serial_loop (st\<lparr>serialCheckCounter := 0\<rparr>)
         \<and> Serial_rx (ISR_TIMER0_COMPA st) = []
         \<and> length (Serial_tx (ISR_TIMER0_COMPA st)) =
             length (Serial_tx st) + length (Serial_rx st))"
proof -
  have nth: "\<forall>k < length (Serial_rx st).
         Serial_tx (serial_loop st) ! (length (Serial_tx st) + k) =
         buffer_byte
           (st\<lparr>pin13_output := True, Serial_rx := drop (Suc k) (Serial_rx st),
               Serial_tx := take (length (Serial_tx st) + k) (Serial_tx (serial_loop st))\<rparr>)
           (Serial_rx st ! k)"
    by (simp add: serial_loop_nth)
  then have inr: "\<forall>k < length (Serial_rx st).
         unat (Serial_rx st ! k) < sizeof_dataForController_t \<longrightarrow>
         Serial_tx (serial_loop st) ! (length (Serial_tx st) + k) =
         serialize (controllerDataBuffer st) ! unat (Serial_rx st ! k)"
    by (simp add: buffer_byte_in_range)
  have isr: "ISR_TIMER0_COMPA st = serial_loop (st\<lparr>serialCheckCounter := 0\<rparr>)"
    if "serial_check_due (st\<lparr>serialCheckCounter := serialCheckCounter st + 1\<rparr>)"
    using that by (simp add: ISR_TIMER0_COMPA_def Let_def)
  have len0: "length (Serial_tx (serial_loop (st\<lparr>serialCheckCounter := 0\<rparr>))) =
              length (Serial_tx st) + length (Serial_rx st)"
    using serial_loop_length [of "st\<lparr>serialCheckCounter := 0\<rparr>"] by simp
  show ?thesis
    using nth inr isr len0 serial_loop_length [of st] serial_loop_prefix [of st]
      serial_loop_in_range [of st]
    by (simp add: serial_loop_Nil buffer_byte_in_range)
qed

theorem serial_loop_drains_witness:
  "serial_check_due
     ((receive [0, 3] (setControllerData triangle_data sample_state))
        \<lparr>serialCheckCounter := 0 + 1\<rparr>)
   \<and> unat (0 :: uint8_t) < sizeof_dataForController_t
   \<and> unat (3 :: uint8_t) < sizeof_dataForController_t
   \<and> Serial_rx (ISR_TIMER0_COMPA
        (receive [0, 3] (setControllerData triangle_data sample_state))) = []
   \<and> Serial_tx (ISR_TIMER0_COMPA
        (receive [0, 3] (setControllerData triangle_data sample_state))) = [1, 90]"
proof -
  let ?st = "receive [0, 3] (setControllerData triangle_data sample_state)"
  let ?z = "?st\<lparr>serialCheckCounter := 0\<rparr>"
  have c: "serialCheckCounter ?st = 0" and rx: "Serial_rx ?z = [0, 3]"
    and tx: "Serial_tx ?z = []" and buf: "controllerDataBuffer ?z = triangle_data"
    by (simp_all add: run_defs)
  have due: "serial_check_due (?st\<lparr>serialCheckCounter := serialCheckCounter ?st + 1\<rparr>)"
    by (simp add: run_defs word_sle_eq)
  have r: "unat (0 :: uint8_t) < sizeof_dataForController_t"
    "unat (3 :: uint8_t) < sizeof_dataForController_t"
    by (simp_all add: sizeof_dataForController_t_def)
  have ok: "\<forall>i \<in> set (Serial_rx ?z). unat i < sizeof_dataForController_t"
    by (simp only: rx) (simp add: sizeof_dataForController_t_def)
  have s: "map (\<lambda>i. serialize triangle_data ! unat i) [0, 3 :: uint8_t] = [1, 90]"
    by (simp add: data_defs)
  have "ISR_TIMER0_COMPA ?st = serial_loop ?z"
    using serial_loop_drains [of ?st] due by blast
  moreover have "Serial_rx (serial_loop ?z) = []"
    using serial_loop_drains [of ?z] by blast
  moreover have "Serial_tx (serial_loop ?z) =
      Serial_tx ?z @ map (\<lambda>i. serialize (controllerDataBuffer ?z) ! unat i) (Serial_rx ?z)"
    using serial_loop_drains [of ?z] ok by blast
  ultimately have d: "Serial_rx (ISR_TIMER0_COMPA ?st) = []"
    "Serial_tx (ISR_TIMER0_COMPA ?st) = [1, 90]"
    by (simp_all only: rx tx buf s append_Nil)
  show ?thesis
    using due d r by (simp only: c)
qed

subsection \<open>C7: the blank value\<close>

text \<open>
  C7 says that \<^verbatim>\<open>getBlankDataForController\<close> is deterministic. It declares its local
  structure without an initialiser (line 179) and never assigns the \<^verbatim>\<open>padding\<close> field, so
  bits 1 to 7 of byte 2 of the result are whatever the local held: with all padding
  bits clear in the local byte 2 of the result is 0, with all of them set it is 254.
\<close>

theorem getBlankDataForController_padding_varies:
  "serialize (getBlankDataForController zero_data) ! 2 = 0
   \<and> serialize (getBlankDataForController (zero_data\<lparr>padding := 127\<rparr>)) ! 2 = 254
   \<and> getBlankDataForController zero_data \<noteq>
       getBlankDataForController (zero_data\<lparr>padding := 127\<rparr>)"
proof -
  have a: "serialize (getBlankDataForController zero_data) ! 2 = 0"
    by (simp add: data_defs)
  have b: "serialize (getBlankDataForController (zero_data\<lparr>padding := 127\<rparr>)) ! 2 = 254"
    by (simp add: data_defs)
  have "getBlankDataForController zero_data \<noteq>
        getBlankDataForController (zero_data\<lparr>padding := 127\<rparr>)"
    using a b by auto
  then show ?thesis using a b by simp
qed

text \<open>
  C7 as amended: \<^verbatim>\<open>getBlankDataForController\<close> takes and returns no machine state.
  Whatever the uninitialised local held, the result serializes with bytes 0 and 1 and
  bit 0 of byte 2 (the seventeen button bits) all 0 and with the four stick bytes 128;
  the result is the same on every call in all of these fields, and two results can
  differ only in the padding field, which the function never assigns.
\<close>

theorem getBlankDataForController_blank:
  "serialize (getBlankDataForController uninit) ! 0 = 0
   \<and> serialize (getBlankDataForController uninit) ! 1 = 0
   \<and> take_bit 1 (serialize (getBlankDataForController uninit) ! 2) = 0
   \<and> drop 3 (serialize (getBlankDataForController uninit)) = [128, 128, 128, 128]
   \<and> getBlankDataForController uninit =
       (getBlankDataForController uninit')\<lparr>padding := padding uninit\<rparr>"
proof -
  let ?b = "getBlankDataForController uninit"
  have b0: "byte0 ?b = 0" and b1: "byte1 ?b = 0"
    by (simp_all add: getBlankDataForController_def byte0_def byte1_def bitfield_def)
  have "dpadDownOn ?b = 0"
    by (simp add: getBlankDataForController_def)
  then have b2: "take_bit 1 (byte2 ?b) = 0"
    using byte2_low [of ?b] by simp
  have st: "drop 3 (serialize ?b) = [128, 128, 128, 128]"
    by (simp add: serialize_def getBlankDataForController_def)
  have det: "?b = (getBlankDataForController uninit')\<lparr>padding := padding uninit\<rparr>"
    by (simp add: getBlankDataForController_def)
  have nth: "serialize ?b ! 0 = byte0 ?b" "serialize ?b ! 1 = byte1 ?b" "serialize ?b ! 2 = byte2 ?b"
    by (simp_all add: serialize_def)
  show ?thesis
    unfolding nth using b0 b1 b2 st det by blast
qed

subsection \<open>C8: asking twice gives the same byte\<close>

text \<open>
  C8: for an in-range offset \<open>i\<close>, with nothing pending and no submit in between, send
  \<open>i\<close>, let ticks pass until it is answered, send \<open>i\<close> again and let ticks pass until that
  is answered: both answers are byte \<open>i\<close> of the stored structure.
\<close>

theorem poll_idempotent:
  assumes "unat i < sizeof_dataForController_t"
    and "Serial_rx st = []"
    and "st1 = ticks ([i] # replicate m []) st" and "Serial_rx st1 = []"
    and "st2 = ticks ([i] # replicate n []) st1" and "Serial_rx st2 = []"
  shows "Serial_tx st1 = Serial_tx st @ [serialize (controllerDataBuffer st) ! unat i]
       \<and> Serial_tx st2 = Serial_tx st1 @ [serialize (controllerDataBuffer st) ! unat i]"
proof -
  have t1: "Serial_tx st1 = Serial_tx st @ [serialize (controllerDataBuffer st) ! unat i]"
    using quiet_ticks_served [of i st m] assms(1,2,3,4) by simp
  have "controllerDataBuffer st1 = controllerDataBuffer st"
    using assms(3) by simp
  then have t2: "Serial_tx st2 = Serial_tx st1 @ [serialize (controllerDataBuffer st) ! unat i]"
    using quiet_ticks_served [of i st1 n] assms(1,4,5,6) by simp
  show ?thesis using t1 t2 by simp
qed

theorem poll_idempotent_witness:
  "unat (3 :: uint8_t) < sizeof_dataForController_t
   \<and> Serial_rx (setControllerData triangle_data sample_state) = []
   \<and> Serial_rx (ticks ([3] # replicate 0 [])
        (setControllerData triangle_data sample_state)) = []
   \<and> Serial_rx (ticks ([3] # replicate 1 [])
        (ticks ([3] # replicate 0 [])
          (setControllerData triangle_data sample_state))) = []
   \<and> Serial_tx (ticks ([3] # replicate 1 [])
        (ticks ([3] # replicate 0 [])
          (setControllerData triangle_data sample_state))) = [90, 90]"
proof -
  let ?st = "setControllerData triangle_data sample_state"
  let ?st1 = "ticks ([3] # replicate 0 []) ?st"
  let ?st2 = "ticks ([3] # replicate 1 []) ?st1"
  have h1: "unat (3 :: uint8_t) < sizeof_dataForController_t"
    by (simp add: sizeof_dataForController_t_def)
  have h2: "Serial_rx ?st = []" and tx: "Serial_tx ?st = []"
    and buf: "controllerDataBuffer ?st = triangle_data"
    by (simp_all add: run_defs)
  have h4: "Serial_rx ?st1 = []"
    by (simp add: run_defs word_sle_eq)
  have h6: "Serial_rx ?st2 = []"
    by (simp add: run_defs word_sle_eq)
  have s: "serialize triangle_data ! unat (3 :: uint8_t) = 90"
    by (simp add: data_defs)
  have "Serial_tx ?st1 = Serial_tx ?st @ [serialize (controllerDataBuffer ?st) ! unat (3 :: uint8_t)]
      \<and> Serial_tx ?st2 = Serial_tx ?st1 @ [serialize (controllerDataBuffer ?st) ! unat (3 :: uint8_t)]"
    using h1 h2 refl h4 refl h6 by (rule poll_idempotent)
  then have "Serial_tx ?st2 = [90, 90]"
    by (simp only: tx buf s) simp
  then show ?thesis
    using h1 h2 h4 h6 by (intro conjI)
qed

subsection \<open>C9: who writes what\<close>

text \<open>
  C9: the interrupt handler, and so any run of ticks, leaves \<^verbatim>\<open>controllerDataBuffer\<close> as
  it was; \<^verbatim>\<open>setControllerData\<close> leaves \<^verbatim>\<open>serialCheckInterval\<close> and \<^verbatim>\<open>serialCheckCounter\<close> as
  they were and stores its argument; both forms of \<^verbatim>\<open>setupUnoJoy\<close> store the blank value.
\<close>

theorem buffer_and_scheduler_frame:
  "controllerDataBuffer (ISR_TIMER0_COMPA st) = controllerDataBuffer st
   \<and> controllerDataBuffer (ticks sched st) = controllerDataBuffer st
   \<and> serialCheckInterval (setControllerData d st) = serialCheckInterval st
   \<and> serialCheckCounter (setControllerData d st) = serialCheckCounter st
   \<and> controllerDataBuffer (setControllerData d st) = d
   \<and> controllerDataBuffer (setupUnoJoy uninit st) = getBlankDataForController uninit
   \<and> controllerDataBuffer (setupUnoJoy_int interval uninit st) = getBlankDataForController uninit"
  by (simp add: setControllerData_def setupUnoJoy_def setupUnoJoy_int_def)

subsection \<open>C10: the counter stays below the interval\<close>

text \<open>
  C10: for an interval of at least 1, \<open>0 \<le> serialCheckCounter < serialCheckInterval\<close>
  holds when the counter is 0, every invocation of the handler preserves it and leaves
  the interval alone, and so it holds after any run of ticks from a counter of 0.
\<close>

theorem counter_invariant:
  assumes "1 \<le>s serialCheckInterval st"
  shows "(serialCheckCounter st = 0 \<longrightarrow> counter_in_range st)
       \<and> (counter_in_range st \<longrightarrow> counter_in_range (ISR_TIMER0_COMPA st))
       \<and> serialCheckInterval (ISR_TIMER0_COMPA st) = serialCheckInterval st
       \<and> (serialCheckCounter st = 0 \<longrightarrow> counter_in_range (ticks sched st))"
proof -
  have init: "counter_in_range st" if "serialCheckCounter st = 0"
    using assms that by (simp add: counter_in_range_sint word_sle_eq)
  show ?thesis
    using init ISR_counter_in_range [of st] ticks_counter_in_range [of st sched] by simp
qed

theorem counter_invariant_witness:
  "1 \<le>s serialCheckInterval (setupUnoJoy_int 3 zero_data sample_state)
   \<and> serialCheckCounter (setupUnoJoy_int 3 zero_data sample_state) = 0
   \<and> counter_in_range (setupUnoJoy_int 3 zero_data sample_state)
   \<and> counter_in_range (ISR_TIMER0_COMPA (setupUnoJoy_int 3 zero_data sample_state))
   \<and> counter_in_range (ticks [[], [1], [], [], [2]]
        (setupUnoJoy_int 3 zero_data sample_state))"
proof -
  let ?st = "setupUnoJoy_int 3 zero_data sample_state"
  have h1: "1 \<le>s serialCheckInterval ?st"
    by (simp add: run_defs word_sle_eq)
  have h2: "serialCheckCounter ?st = 0"
    by (simp add: run_defs)
  show ?thesis
    using counter_invariant [OF h1, of "[[], [1], [], [], [2]]"] h1 h2 by blast
qed

end
